theory Spec2Isabelle
  imports Complex_Main
begin

section \<open>ConvI conversation normalizer: data model\<close>

text \<open>
  A shallow embedding of \<^verbatim>\<open>app/conversation_normalizer/__init__.py\<close>.
  A Python \<^verbatim>\<open>str\<close> is a \<open>string\<close>: each \<open>char\<close> stands for one code point
  below 256, so the development covers transcripts written in Latin-1 text.
  Times are Python floats, modelled as \<open>real\<close>; they are only copied.
  The calls to the logger are left out: they return nothing and change nothing.
\<close>

text \<open>
  Modelled from the spec: the enumeration \<^verbatim>\<open>Role\<close> of \<^verbatim>\<open>app.schemas\<close> (section 3 of the
  spec: agent, customer, unknown), whose declaration is not among the sources.
\<close>

datatype Role = agent | customer | unknown

text \<open>
  Modelled from the spec: the string value of each \<^verbatim>\<open>Role\<close> member, read by
  \<^verbatim>\<open>t.role.value\<close>; the renderer capitalizes it to "Agent", "Customer", "Unknown".
\<close>

fun role_value :: "Role \<Rightarrow> string" where
  "role_value agent = ''agent''"
| "role_value customer = ''customer''"
| "role_value unknown = ''unknown''"

text \<open>
  Modelled from the spec: \<^verbatim>\<open>SpeechSegment\<close> of \<^verbatim>\<open>app.speech_pipeline.schemas\<close>, with the
  fields the normalizer reads (section 3 and section 6 of the spec).
\<close>

record SpeechSegment =
  speaker_id :: string
  original_text :: string
  language :: string
  emotion :: "string option"
  start_time :: real
  end_time :: real

text \<open>
  Modelled from the spec: \<^verbatim>\<open>ConversationTurn\<close> of \<^verbatim>\<open>app.schemas\<close>, with the fields the
  normalizer passes to its constructor.
\<close>

record ConversationTurn =
  speaker_id :: string
  role :: Role
  original_text :: string
  normalized_text_en :: string
  language :: string
  emotion :: "string option"
  start_time :: "real option"
  end_time :: "real option"

section \<open>Role assignment\<close>

text \<open>
  \<^verbatim>\<open>
  speakers_seen = []
  for seg in segments:
      if seg.speaker_id not in speakers_seen:
          speakers_seen.append(seg.speaker_id)
  \<close>
\<close>

fun speakers_seen_loop :: "SpeechSegment list \<Rightarrow> string list \<Rightarrow> string list" where
  "speakers_seen_loop [] speakers_seen = speakers_seen"
| "speakers_seen_loop (seg # segments) speakers_seen =
     speakers_seen_loop segments
       (if SpeechSegment.speaker_id seg \<notin> set speakers_seen
        then speakers_seen @ [SpeechSegment.speaker_id seg]
        else speakers_seen)"

text \<open>
  \<^verbatim>\<open>
  role_map = {}
  for i, spk in enumerate(speakers_seen):
      role_map[spk] = Role.agent if i == 0 else Role.customer
  \<close>
\<close>

fun role_map_loop :: "(nat \<times> string) list \<Rightarrow> (string \<rightharpoonup> Role) \<Rightarrow> (string \<rightharpoonup> Role)" where
  "role_map_loop [] role_map = role_map"
| "role_map_loop ((i, spk) # rest) role_map =
     role_map_loop rest (role_map(spk \<mapsto> (if i = 0 then agent else customer)))"

definition assign_roles_from_speakers :: "SpeechSegment list \<Rightarrow> (string \<rightharpoonup> Role)" where
  "assign_roles_from_speakers segments =
     role_map_loop (enumerate 0 (speakers_seen_loop segments [])) Map.empty"

section \<open>Audio path\<close>

text \<open>The body of the loop of \<^verbatim>\<open>normalize_from_speech\<close>: one turn for one segment.\<close>

definition speech_turn :: "(string \<rightharpoonup> Role) \<Rightarrow> SpeechSegment \<Rightarrow> ConversationTurn" where
  "speech_turn role_map seg =
     \<lparr>ConversationTurn.speaker_id = SpeechSegment.speaker_id seg,
      role = (case role_map (SpeechSegment.speaker_id seg) of Some r \<Rightarrow> r | None \<Rightarrow> unknown),
      original_text = SpeechSegment.original_text seg,
      normalized_text_en = SpeechSegment.original_text seg,
      language = SpeechSegment.language seg,
      emotion = SpeechSegment.emotion seg,
      start_time = Some (SpeechSegment.start_time seg),
      end_time = Some (SpeechSegment.end_time seg)\<rparr>"

fun speech_loop ::
  "(string \<rightharpoonup> Role) \<Rightarrow> SpeechSegment list \<Rightarrow> ConversationTurn list \<Rightarrow> ConversationTurn list" where
  "speech_loop role_map [] turns = turns"
| "speech_loop role_map (seg # segments) turns =
     speech_loop role_map segments (turns @ [speech_turn role_map seg])"

definition normalize_from_speech :: "SpeechSegment list \<Rightarrow> ConversationTurn list" where
  "normalize_from_speech segments =
     (if segments = [] then []
      else speech_loop (assign_roles_from_speakers segments) segments [])"

section \<open>Strings of the Python library\<close>

text \<open>
  \<^verbatim>\<open>str.isspace\<close> on one character, which is also the class \<^verbatim>\<open>\s\<close> of a \<^verbatim>\<open>str\<close>
  pattern: the white space of Unicode below 256.
\<close>

definition isspace :: "char \<Rightarrow> bool" where
  "isspace c = (c \<in> set [CHR 0x09, CHR 0x0A, CHR 0x0B, CHR 0x0C, CHR 0x0D,
                           CHR 0x1C, CHR 0x1D, CHR 0x1E, CHR 0x1F, CHR 0x20,
                           CHR 0x85, CHR 0xA0])"

text \<open>The line boundaries of \<^verbatim>\<open>str.splitlines\<close> below 256.\<close>

definition is_linebreak :: "char \<Rightarrow> bool" where
  "is_linebreak c = (c \<in> set [CHR 0x0A, CHR 0x0B, CHR 0x0C, CHR 0x0D,
                                CHR 0x1C, CHR 0x1D, CHR 0x1E, CHR 0x85])"

text \<open>\<^verbatim>\<open>str.strip()\<close>: white space removed at both ends.\<close>

definition strip :: "string \<Rightarrow> string" where
  "strip s = rev (dropWhile isspace (rev (dropWhile isspace s)))"

text \<open>
  \<^verbatim>\<open>str.splitlines()\<close>: the text up to the next line boundary is a line; a carriage
  return followed by a line feed is one boundary; a boundary at the very end opens no
  further line, so the empty string has no line.
\<close>

function splitlines :: "string \<Rightarrow> string list" where
  "splitlines [] = []"
| "splitlines (c # cs) =
     takeWhile (\<lambda>x. \<not> is_linebreak x) (c # cs) #
       (case dropWhile (\<lambda>x. \<not> is_linebreak x) (c # cs) of
          [] \<Rightarrow> []
        | [b] \<Rightarrow> []
        | b # d # r \<Rightarrow>
            if b = CHR 0x0D \<and> d = CHR 0x0A then splitlines r else splitlines (d # r))"
  by pat_completeness auto
termination
proof (relation "measure length")
  show "wf (measure length)" by simp
next
  fix c :: char and cs b x d r
  assume "dropWhile (\<lambda>x. \<not> is_linebreak x) (c # cs) = b # x" and "x = d # r"
  then have "length (b # d # r) \<le> length (c # cs)"
    by (metis length_dropWhile_le)
  then show "(r, c # cs) \<in> measure length" by simp
next
  fix c :: char and cs b x d r
  assume "dropWhile (\<lambda>x. \<not> is_linebreak x) (c # cs) = b # x" and "x = d # r"
  then have "length (b # d # r) \<le> length (c # cs)"
    by (metis length_dropWhile_le)
  then show "(d # r, c # cs) \<in> measure length" by simp
qed

declare splitlines.simps [simp del]

text \<open>\<^verbatim>\<open>sep.join(xs)\<close>.\<close>

fun join :: "string \<Rightarrow> string list \<Rightarrow> string" where
  "join sep [] = []"
| "join sep [x] = x"
| "join sep (x # y # ys) = x @ sep @ join sep (y # ys)"

text \<open>
  The two cases of an ASCII letter. \<^verbatim>\<open>str.upper\<close>, \<^verbatim>\<open>str.capitalize\<close> and the flag
  \<^verbatim>\<open>re.I\<close> are applied here to ASCII text only (the label a pattern matched, the value
  of a role, the letters of a pattern), where they are these functions.
\<close>

definition ascii_lower :: "char \<Rightarrow> char" where
  "ascii_lower c =
     (case map_of (zip ''ABCDEFGHIJKLMNOPQRSTUVWXYZ'' ''abcdefghijklmnopqrstuvwxyz'') c of
        Some l \<Rightarrow> l | None \<Rightarrow> c)"

definition ascii_upper :: "char \<Rightarrow> char" where
  "ascii_upper c =
     (case map_of (zip ''abcdefghijklmnopqrstuvwxyz'' ''ABCDEFGHIJKLMNOPQRSTUVWXYZ'') c of
        Some u \<Rightarrow> u | None \<Rightarrow> c)"

definition upper :: "string \<Rightarrow> string" where
  "upper s = map ascii_upper s"

definition capitalize :: "string \<Rightarrow> string" where
  "capitalize s = (case s of [] \<Rightarrow> [] | c # cs \<Rightarrow> ascii_upper c # map ascii_lower cs)"

section \<open>The three prefix patterns\<close>

text \<open>
  A literal of a pattern compiled with \<^verbatim>\<open>re.I\<close>, matched at the start of the subject:
  the rest of the subject after it. A character below 256 matches an ASCII letter of
  the pattern when it is that letter in either case, and any other character of the
  pattern when it is that character.
\<close>

fun match_literal :: "string \<Rightarrow> string \<Rightarrow> string option" where
  "match_literal [] s = Some s"
| "match_literal (p # ps) [] = None"
| "match_literal (p # ps) (c # cs) =
     (if ascii_lower c = ascii_lower p then match_literal ps cs else None)"

text \<open>
  \<^verbatim>\<open>\s*[:\-]\s*\<close>: white space, a colon or a hyphen, white space. Both stars take
  all the white space there is; giving some back never helps, since neither separator
  is white space.
\<close>

definition match_separator :: "string \<Rightarrow> string option" where
  "match_separator s =
     (case dropWhile isspace s of
        [] \<Rightarrow> None
      | c # r \<Rightarrow> if c = CHR '':'' \<or> c = CHR ''-'' then Some (dropWhile isspace r) else None)"

text \<open>
  \<^verbatim>\<open>^(A1|A2|...)\s*[:\-]\s*\<close>: the alternatives are tried in their order, each with
  the separator after it; the first that matches decides. The result is the subject
  with the match removed, which is what \<^verbatim>\<open>sub("", line)\<close> returns on a match (the
  pattern is anchored, so it matches once).
\<close>

fun match_alternatives :: "string list \<Rightarrow> string \<Rightarrow> string option" where
  "match_alternatives [] s = None"
| "match_alternatives (a # as) s =
     (case match_literal a s of
        None \<Rightarrow> match_alternatives as s
      | Some r \<Rightarrow>
          (case match_separator r of
             None \<Rightarrow> match_alternatives as s
           | Some rest \<Rightarrow> Some rest))"

definition AGENT_PREFIX :: "string \<Rightarrow> string option" where
  "AGENT_PREFIX line =
     match_alternatives [''Agent'', ''AGENT'', ''Support'', ''CSR'', ''Representative''] line"

definition CUSTOMER_PREFIX :: "string \<Rightarrow> string option" where
  "CUSTOMER_PREFIX line =
     match_alternatives [''Customer'', ''CUSTOMER'', ''Client'', ''User'', ''Caller''] line"

text \<open>The class \<^verbatim>\<open>\d\<close> below 256: the ten ASCII digits.\<close>

definition re_digit :: "char \<Rightarrow> bool" where
  "re_digit c = (c \<in> set ''0123456789'')"

text \<open>
  \<^verbatim>\<open>^(SPEAKER_\d+)\s*[:\-]\s*\<close>: group 1 as it stands in the subject, and the subject
  with the match removed. \<^verbatim>\<open>\d+\<close> takes every digit there is: a separator is no digit.
\<close>

definition SPEAKER_PREFIX :: "string \<Rightarrow> (string \<times> string) option" where
  "SPEAKER_PREFIX line =
     (case match_literal ''SPEAKER_'' line of
        None \<Rightarrow> None
      | Some r \<Rightarrow>
          (let digits = takeWhile re_digit r in
           if digits = [] then None
           else (case match_separator (dropWhile re_digit r) of
                   None \<Rightarrow> None
                 | Some rest \<Rightarrow>
                     Some (take (length ''SPEAKER_'' + length digits) line, rest))))"

section \<open>Text path\<close>

text \<open>
  The chain of \<^verbatim>\<open>if\<close> and \<^verbatim>\<open>elif\<close> in the loop of \<^verbatim>\<open>normalize_from_text\<close>, for the
  line at index \<open>i\<close>: the role, the speaker identifier and the text.
\<close>

definition classify :: "nat \<Rightarrow> string \<Rightarrow> Role \<times> string \<times> string" where
  "classify i line =
     (case AGENT_PREFIX line of
        Some rest \<Rightarrow> (agent, ''AGENT'', strip rest)
      | None \<Rightarrow>
     (case CUSTOMER_PREFIX line of
        Some rest \<Rightarrow> (customer, ''CUSTOMER'', strip rest)
      | None \<Rightarrow>
     (case SPEAKER_PREFIX line of
        Some (label, rest) \<Rightarrow>
          (if upper label = ''SPEAKER_00'' then agent else customer, upper label, strip rest)
      | None \<Rightarrow>
          (if i mod 2 = 0 then (agent, ''AGENT'', line) else (customer, ''CUSTOMER'', line)))))"

text \<open>
  The loop over \<^verbatim>\<open>enumerate(lines)\<close>: a line whose text is empty is skipped
  (\<^verbatim>\<open>continue\<close>), any other appends its turn.
\<close>

fun text_loop ::
  "string \<Rightarrow> nat \<Rightarrow> string list \<Rightarrow> ConversationTurn list \<Rightarrow> ConversationTurn list" where
  "text_loop lang i [] turns = turns"
| "text_loop lang i (line # lines) turns =
     (case classify i line of
        (r, spk, txt) \<Rightarrow>
          if txt = [] then text_loop lang (Suc i) lines turns
          else text_loop lang (Suc i) lines
                 (turns @ [\<lparr>ConversationTurn.speaker_id = spk, role = r,
                            original_text = txt, normalized_text_en = txt,
                            language = lang, emotion = None,
                            start_time = None, end_time = None\<rparr>]))"

text \<open>
  \<^verbatim>\<open>lines = [l.strip() for l in transcript.strip().splitlines() if l.strip()]\<close>
\<close>

definition transcript_lines :: "string \<Rightarrow> string list" where
  "transcript_lines transcript =
     map strip (filter (\<lambda>l. strip l \<noteq> []) (splitlines (strip transcript)))"

text \<open>
  The spec's words for the lines the parser works on: the non-blank lines of the
  transcript itself, each without its surrounding white space. The code strips the
  transcript before it splits it; \<open>transcript_lines_nonblank\<close> below shows that the
  lines are the same.
\<close>

definition nonblank_lines :: "string \<Rightarrow> string list" where
  "nonblank_lines s = map strip (filter (\<lambda>l. strip l \<noteq> []) (splitlines s))"

text \<open>
  The spec's words for the text of a line after prefix stripping (section 4.3), written
  without the parser's matchers. A line begins with a label when its first characters
  are the label in any case; the label counts when white space or none and then a colon
  or a hyphen follow it, and the text is what follows, stripped. The agent-side and
  customer-side aliases are tried in the spec's priority order, then the diarized label
  "SPEAKER_" with one or more digits; a line with no such label keeps its own text.
\<close>

definition spec_begins_with :: "string \<Rightarrow> string \<Rightarrow> bool" where
  "spec_begins_with a line = (map ascii_lower (take (length a) line) = a)"

definition spec_remainder_after :: "nat \<Rightarrow> string \<Rightarrow> string option" where
  "spec_remainder_after n line =
     (let r = dropWhile isspace (drop n line)
      in if r \<noteq> [] \<and> hd r \<in> set '':-'' then Some (strip (tl r)) else None)"

fun spec_labelled_text :: "string list \<Rightarrow> string \<Rightarrow> string option" where
  "spec_labelled_text [] line = None"
| "spec_labelled_text (a # as) line =
     (if spec_begins_with a line \<and> spec_remainder_after (length a) line \<noteq> None
      then spec_remainder_after (length a) line
      else spec_labelled_text as line)"

definition spec_diarized_text :: "string \<Rightarrow> string option" where
  "spec_diarized_text line =
     (let digits = takeWhile re_digit (drop (length ''speaker_'') line)
      in if spec_begins_with ''speaker_'' line \<and> digits \<noteq> []
         then spec_remainder_after (length ''speaker_'' + length digits) line
         else None)"

definition spec_text_after_prefix :: "string \<Rightarrow> string" where
  "spec_text_after_prefix line =
     (case spec_labelled_text
             [''agent'', ''support'', ''csr'', ''representative'',
              ''customer'', ''client'', ''user'', ''caller''] line of
        Some t \<Rightarrow> t
      | None \<Rightarrow> (case spec_diarized_text line of Some t \<Rightarrow> t | None \<Rightarrow> line))"

definition normalize_from_text :: "string \<Rightarrow> string \<Rightarrow> ConversationTurn list" where
  "normalize_from_text transcript lang = text_loop lang 0 (transcript_lines transcript) []"

section \<open>Dialogue renderer\<close>

text \<open>
  One line of the dialogue. \<^verbatim>\<open>if t.emotion\<close> is false for \<^verbatim>\<open>None\<close> and for the empty
  string.
\<close>

definition dialogue_line :: "ConversationTurn \<Rightarrow> string" where
  "dialogue_line t =
     (let role_label = capitalize (role_value (role t));
          emotion_tag = (case ConversationTurn.emotion t of
                           None \<Rightarrow> []
                         | Some e \<Rightarrow> if e = [] then [] else '' ['' @ e @ '']'')
      in role_label @ emotion_tag @ '': '' @ normalized_text_en t)"

fun dialogue_loop :: "ConversationTurn list \<Rightarrow> string list \<Rightarrow> string list" where
  "dialogue_loop [] lines = lines"
| "dialogue_loop (t # turns) lines = dialogue_loop turns (lines @ [dialogue_line t])"

definition turns_to_dialogue_string :: "ConversationTurn list \<Rightarrow> string" where
  "turns_to_dialogue_string turns = join [CHR 0x0A] (dialogue_loop turns [])"

section \<open>Properties of the role assigner and the audio path\<close>

lemma speakers_seen_loop_set:
  "set (speakers_seen_loop segs seen) = set seen \<union> SpeechSegment.speaker_id ` set segs"
  by (induction segs arbitrary: seen) auto

lemma speakers_seen_loop_distinct:
  "distinct seen \<Longrightarrow> distinct (speakers_seen_loop segs seen)"
  by (induction segs arbitrary: seen) auto

lemma speakers_seen_loop_prefix:
  "\<exists>ys. speakers_seen_loop segs seen = seen @ ys"
  by (induction segs arbitrary: seen) (auto, metis append.assoc)

lemma speakers_seen_loop_Cons:
  "\<exists>ys. speakers_seen_loop (seg # segs) [] = SpeechSegment.speaker_id seg # ys
     \<and> SpeechSegment.speaker_id seg \<notin> set ys
     \<and> set ys = SpeechSegment.speaker_id ` set segs - {SpeechSegment.speaker_id seg}"
proof -
  let ?k = "SpeechSegment.speaker_id seg"
  obtain ys where ys: "speakers_seen_loop segs [?k] = [?k] @ ys"
    using speakers_seen_loop_prefix by blast
  have d: "distinct (speakers_seen_loop segs [?k])"
    by (rule speakers_seen_loop_distinct) simp
  have s: "set (speakers_seen_loop segs [?k]) = {?k} \<union> SpeechSegment.speaker_id ` set segs"
    by (simp add: speakers_seen_loop_set)
  from ys d have "?k \<notin> set ys" by simp
  moreover from ys s this have "set ys = SpeechSegment.speaker_id ` set segs - {?k}" by auto
  ultimately show ?thesis using ys by simp
qed

lemma role_map_loop_later:
  "0 < n \<Longrightarrow> role_map_loop (enumerate n xs) m k = (if k \<in> set xs then Some customer else m k)"
  by (induction xs arbitrary: n m) auto

lemma assign_roles_Cons:
  "assign_roles_from_speakers (seg # segs) k =
     (if k = SpeechSegment.speaker_id seg then Some agent
      else if k \<in> SpeechSegment.speaker_id ` set segs then Some customer
      else None)"
proof -
  obtain ys where ys: "speakers_seen_loop (seg # segs) [] = SpeechSegment.speaker_id seg # ys"
    and notin: "SpeechSegment.speaker_id seg \<notin> set ys"
    and sety: "set ys = SpeechSegment.speaker_id ` set segs - {SpeechSegment.speaker_id seg}"
    using speakers_seen_loop_Cons by blast
  show ?thesis
    unfolding assign_roles_from_speakers_def ys
    using notin sety by (auto simp: role_map_loop_later simp del: speakers_seen_loop.simps)
qed

text \<open>
  C1. The role assigner gives the empty mapping for no segments. For a sequence that
  starts with the segment \<open>seg\<close>, the speaker of \<open>seg\<close> (the identifier seen first,
  whatever its text) is the agent, every other identifier that occurs is a customer,
  and an identifier that does not occur has no entry.
\<close>

theorem assign_roles_first_seen:
  "assign_roles_from_speakers [] = Map.empty \<and>
   assign_roles_from_speakers (seg # segs) k =
     (if k = SpeechSegment.speaker_id seg then Some agent
      else if k \<in> SpeechSegment.speaker_id ` set segs then Some customer
      else None)"
proof
  have "speakers_seen_loop [] [] = []" by simp
  then show "assign_roles_from_speakers [] = Map.empty"
    unfolding assign_roles_from_speakers_def by simp
next
  show "assign_roles_from_speakers (seg # segs) k =
     (if k = SpeechSegment.speaker_id seg then Some agent
      else if k \<in> SpeechSegment.speaker_id ` set segs then Some customer
      else None)"
    by (rule assign_roles_Cons)
qed

theorem assign_roles_first_seen_witness:
  "assign_roles_from_speakers
     [\<lparr>SpeechSegment.speaker_id = ''SPEAKER_01'', original_text = ''Hello'', language = ''en'',
        emotion = None, start_time = 0, end_time = 1\<rparr>,
      \<lparr>SpeechSegment.speaker_id = ''SPEAKER_00'', original_text = ''Hi'', language = ''en'',
        emotion = None, start_time = 1, end_time = 2\<rparr>,
      \<lparr>SpeechSegment.speaker_id = ''SPEAKER_01'', original_text = ''Bye'', language = ''en'',
        emotion = None, start_time = 2, end_time = 3\<rparr>] ''SPEAKER_01'' = Some agent"
  using assign_roles_first_seen[of
      "\<lparr>SpeechSegment.speaker_id = ''SPEAKER_01'', original_text = ''Hello'', language = ''en'',
        emotion = None, start_time = 0, end_time = 1\<rparr>"
      "[\<lparr>SpeechSegment.speaker_id = ''SPEAKER_00'', original_text = ''Hi'', language = ''en'',
        emotion = None, start_time = 1, end_time = 2\<rparr>,
      \<lparr>SpeechSegment.speaker_id = ''SPEAKER_01'', original_text = ''Bye'', language = ''en'',
        emotion = None, start_time = 2, end_time = 3\<rparr>]" "''SPEAKER_01''"]
  by simp

lemma speech_loop_map:
  "speech_loop m segs turns = turns @ map (speech_turn m) segs"
  by (induction segs arbitrary: turns) auto

lemma normalize_from_speech_map:
  "normalize_from_speech segs = map (speech_turn (assign_roles_from_speakers segs)) segs"
  by (simp add: normalize_from_speech_def speech_loop_map)

text \<open>
  C3. The audio path returns one turn for each segment, in the order of the segments
  (none for no segments); the turn takes its speaker identifier, original text,
  language, emotion and times from its segment, and its English text is the segment's
  original text, whatever the language.
\<close>

theorem normalize_from_speech_copies:
  "normalize_from_speech [] = [] \<and>
   length (normalize_from_speech segs) = length segs \<and>
   map (\<lambda>t. (ConversationTurn.speaker_id t, ConversationTurn.original_text t,
             normalized_text_en t, ConversationTurn.language t, ConversationTurn.emotion t,
             ConversationTurn.start_time t, ConversationTurn.end_time t))
       (normalize_from_speech segs) =
   map (\<lambda>s. (SpeechSegment.speaker_id s, SpeechSegment.original_text s,
             SpeechSegment.original_text s, SpeechSegment.language s, SpeechSegment.emotion s,
             Some (SpeechSegment.start_time s), Some (SpeechSegment.end_time s)))
       segs"
proof (intro conjI)
  show "normalize_from_speech [] = []"
    by (simp add: normalize_from_speech_def)
next
  show "length (normalize_from_speech segs) = length segs"
    unfolding normalize_from_speech_map by simp
next
  show "map (\<lambda>t. (ConversationTurn.speaker_id t, ConversationTurn.original_text t,
             normalized_text_en t, ConversationTurn.language t, ConversationTurn.emotion t,
             ConversationTurn.start_time t, ConversationTurn.end_time t))
       (normalize_from_speech segs) =
   map (\<lambda>s. (SpeechSegment.speaker_id s, SpeechSegment.original_text s,
             SpeechSegment.original_text s, SpeechSegment.language s, SpeechSegment.emotion s,
             Some (SpeechSegment.start_time s), Some (SpeechSegment.end_time s)))
       segs"
    unfolding normalize_from_speech_map by (simp add: speech_turn_def)
qed

text \<open>
  C10. Every segment's speaker is a key of the role map built from the same segments,
  so the audio path never falls back to the role unknown.
\<close>

theorem unknown_role_unreachable:
  "(\<forall>seg\<in>set segs. SpeechSegment.speaker_id seg \<in> dom (assign_roles_from_speakers segs)) \<and>
   (\<forall>t\<in>set (normalize_from_speech segs). role t \<noteq> unknown)"
proof -
  have d: "SpeechSegment.speaker_id seg \<in> dom (assign_roles_from_speakers segs)"
    if "seg \<in> set segs" for seg
  proof (cases segs)
    case Nil
    with that show ?thesis by simp
  next
    case (Cons s ss)
    with that show ?thesis
      using assign_roles_Cons[of s ss "SpeechSegment.speaker_id seg"] by (auto simp: dom_def)
  qed
  have r: "assign_roles_from_speakers segs k \<noteq> Some unknown" for k
  proof (cases segs)
    case Nil
    then show ?thesis by (simp add: assign_roles_from_speakers_def)
  next
    case (Cons s ss)
    then show ?thesis using assign_roles_Cons[of s ss k] by simp
  qed
  have "role t \<noteq> unknown" if "t \<in> set (normalize_from_speech segs)" for t
  proof -
    from that obtain seg where seg: "seg \<in> set segs"
      and t: "t = speech_turn (assign_roles_from_speakers segs) seg"
      by (auto simp: normalize_from_speech_map)
    from d[OF seg] obtain ro where ro: "assign_roles_from_speakers segs (SpeechSegment.speaker_id seg) = Some ro"
      by auto
    with r[of "SpeechSegment.speaker_id seg"] have "ro \<noteq> unknown" by auto
    with ro show ?thesis by (simp add: t speech_turn_def)
  qed
  with d show ?thesis by blast
qed

theorem unknown_role_unreachable_witness:
  "map role (normalize_from_speech
     [\<lparr>SpeechSegment.speaker_id = ''SPEAKER_01'', original_text = ''Hello'', language = ''en'',
        emotion = None, start_time = 0, end_time = 1\<rparr>,
      \<lparr>SpeechSegment.speaker_id = ''SPEAKER_00'', original_text = ''Hi'', language = ''ml'',
        emotion = Some ''angry'', start_time = 1, end_time = 2.5\<rparr>]) = [agent, customer] \<and>
   unknown \<notin> set [agent, customer]"
  using unknown_role_unreachable[of
     "[\<lparr>SpeechSegment.speaker_id = ''SPEAKER_01'', original_text = ''Hello'', language = ''en'',
        emotion = None, start_time = 0, end_time = 1\<rparr>,
      \<lparr>SpeechSegment.speaker_id = ''SPEAKER_00'', original_text = ''Hi'', language = ''ml'',
        emotion = Some ''angry'', start_time = 1, end_time = 2.5\<rparr>]"]
  by (simp add: normalize_from_speech_def speech_turn_def assign_roles_from_speakers_def)

section \<open>Properties of the text path and the renderer\<close>

lemma is_linebreak_isspace: "is_linebreak c \<Longrightarrow> isspace c"
  by (auto simp: is_linebreak_def isspace_def)

lemma set_strip: "set (strip s) \<subseteq> set s"
  unfolding strip_def by (auto dest!: set_dropWhileD)

lemma match_literal_suffix:
  "match_literal a s = Some r \<Longrightarrow> \<exists>p. s = p @ r \<and> length p = length a"
proof (induction a s rule: match_literal.induct)
  case (1 s)
  then show ?case by simp
next
  case (2 p ps)
  then show ?case by simp
next
  case (3 p ps c cs)
  then obtain q where "cs = q @ r" "length q = length ps"
    by (auto split: if_splits)
  then have "c # cs = (c # q) @ r \<and> length (c # q) = length (p # ps)" by simp
  then show ?case by blast
qed

lemma match_separator_set: "match_separator s = Some r \<Longrightarrow> set r \<subseteq> set s"
proof -
  assume a: "match_separator s = Some r"
  then obtain c t where ct: "dropWhile isspace s = c # t" and r: "r = dropWhile isspace t"
    by (auto simp: match_separator_def split: list.splits if_splits)
  have "set r \<subseteq> set t" unfolding r by (meson set_dropWhileD subsetI)
  also have "\<dots> \<subseteq> set (dropWhile isspace s)" using ct by auto
  also have "\<dots> \<subseteq> set s" by (meson set_dropWhileD subsetI)
  finally show ?thesis .
qed

lemma match_alternatives_set: "match_alternatives as s = Some r \<Longrightarrow> set r \<subseteq> set s"
proof (induction as)
  case Nil
  then show ?case by simp
next
  case (Cons a as)
  show ?case
  proof (cases "match_literal a s")
    case None
    with Cons show ?thesis by simp
  next
    case (Some q)
    show ?thesis
    proof (cases "match_separator q")
      case None
      with Some Cons show ?thesis by simp
    next
      case (Some r')
      with \<open>match_literal a s = Some q\<close> Cons.prems have "r' = r" by simp
      moreover have "set r' \<subseteq> set q" using Some by (rule match_separator_set)
      moreover have "set q \<subseteq> set s"
        using match_literal_suffix[OF \<open>match_literal a s = Some q\<close>] by auto
      ultimately show ?thesis by blast
    qed
  qed
qed

lemma SPEAKER_PREFIX_set: "SPEAKER_PREFIX s = Some (l, r) \<Longrightarrow> set r \<subseteq> set s"
proof -
  assume a: "SPEAKER_PREFIX s = Some (l, r)"
  then obtain q where q: "match_literal ''SPEAKER_'' s = Some q"
    and m: "match_separator (dropWhile re_digit q) = Some r"
    by (auto simp: SPEAKER_PREFIX_def Let_def split: option.splits if_splits)
  have "set r \<subseteq> set (dropWhile re_digit q)" using m by (rule match_separator_set)
  also have "\<dots> \<subseteq> set q" by (meson set_dropWhileD subsetI)
  also have "\<dots> \<subseteq> set s" using match_literal_suffix[OF q] by auto
  finally show ?thesis .
qed

lemma AGENT_PREFIX_set: "AGENT_PREFIX s = Some r \<Longrightarrow> set (strip r) \<subseteq> set s"
  unfolding AGENT_PREFIX_def using match_alternatives_set set_strip by blast

lemma CUSTOMER_PREFIX_set: "CUSTOMER_PREFIX s = Some r \<Longrightarrow> set (strip r) \<subseteq> set s"
  unfolding CUSTOMER_PREFIX_def using match_alternatives_set set_strip by blast

lemma SPEAKER_PREFIX_strip_set: "SPEAKER_PREFIX s = Some (l, r) \<Longrightarrow> set (strip r) \<subseteq> set s"
  using SPEAKER_PREFIX_set set_strip by blast

lemma classify_text_set: "classify i l = (r, spk, txt) \<Longrightarrow> set txt \<subseteq> set l"
  unfolding classify_def
  by (auto split: option.splits if_splits prod.splits
      dest: AGENT_PREFIX_set CUSTOMER_PREFIX_set SPEAKER_PREFIX_strip_set)

lemma classify_role: "classify i l = (r, spk, txt) \<Longrightarrow> r = agent \<or> r = customer"
  unfolding classify_def
  by (auto split: option.splits if_splits prod.splits)

lemma text_loop_acc: "text_loop lang i ls acc = acc @ text_loop lang i ls []"
proof (induction ls arbitrary: i acc)
  case Nil
  then show ?case by simp
next
  case (Cons l ls)
  obtain r spk tx where c: "classify i l = (r, spk, tx)" by (cases "classify i l") auto
  show ?case
  proof (cases "tx = []")
    case True
    with c Cons[of "Suc i" acc] show ?thesis by simp
  next
    case False
    let ?t = "\<lparr>ConversationTurn.speaker_id = spk, role = r,
                original_text = tx, normalized_text_en = tx,
                language = lang, emotion = None,
                start_time = None, end_time = None\<rparr>"
    have "text_loop lang i (l # ls) acc = text_loop lang (Suc i) ls (acc @ [?t])"
      using c False by simp
    also have "\<dots> = (acc @ [?t]) @ text_loop lang (Suc i) ls []"
      by (rule Cons)
    also have "\<dots> = acc @ text_loop lang (Suc i) ls ([] @ [?t])"
      using Cons[of "Suc i" "[] @ [?t]"] by simp
    also have "text_loop lang (Suc i) ls ([] @ [?t]) = text_loop lang i (l # ls) []"
      using c False by simp
    finally show ?thesis .
  qed
qed

lemma text_loop_Cons:
  "text_loop lang i (l # ls) [] = text_loop lang i [l] [] @ text_loop lang (Suc i) ls []"
proof -
  obtain r spk tx where c: "classify i l = (r, spk, tx)" by (cases "classify i l") auto
  show ?thesis
    using c text_loop_acc[of lang "Suc i" ls "[x]" for x] by (cases "tx = []") auto
qed

lemma text_loop_append:
  "text_loop lang i (xs @ ys) [] = text_loop lang i xs [] @ text_loop lang (i + length xs) ys []"
proof (induction xs arbitrary: i)
  case Nil
  then show ?case by simp
next
  case (Cons x xs)
  have "text_loop lang i ((x # xs) @ ys) [] =
        text_loop lang i [x] [] @ text_loop lang (Suc i) (xs @ ys) []"
    using text_loop_Cons[of lang i x "xs @ ys"] by simp
  also have "\<dots> = text_loop lang i [x] [] @ text_loop lang (Suc i) xs [] @
                    text_loop lang (Suc i + length xs) ys []"
    by (simp add: Cons)
  also have "\<dots> = text_loop lang i (x # xs) [] @ text_loop lang (i + length (x # xs)) ys []"
    using text_loop_Cons[of lang i x xs] by simp
  finally show ?case .
qed

lemma text_loop_single:
  "text_loop lang i [l] [] =
     (case classify i l of (r, spk, tx) \<Rightarrow>
        if tx = [] then []
        else [\<lparr>ConversationTurn.speaker_id = spk, role = r,
                original_text = tx, normalized_text_en = tx,
                language = lang, emotion = None,
                start_time = None, end_time = None\<rparr>])"
  by (simp split: prod.splits)

lemma text_loop_length:
  "length (text_loop lang i ls []) =
   length (filter (\<lambda>(j, l). snd (snd (classify j l)) \<noteq> []) (enumerate i ls))"
proof (induction ls arbitrary: i)
  case Nil
  then show ?case by simp
next
  case (Cons l ls)
  show ?case
    unfolding text_loop_Cons[of lang i l ls]
    by (simp add: Cons text_loop_single split: prod.splits del: text_loop.simps)
qed

lemma text_loop_member:
  "t \<in> set (text_loop lang i ls []) \<Longrightarrow>
     \<exists>j l. l \<in> set ls \<and> classify j l = (role t, ConversationTurn.speaker_id t, original_text t)
       \<and> original_text t \<noteq> [] \<and> normalized_text_en t = original_text t
       \<and> ConversationTurn.emotion t = None \<and> ConversationTurn.language t = lang
       \<and> ConversationTurn.start_time t = None \<and> ConversationTurn.end_time t = None"
proof (induction ls arbitrary: i)
  case Nil
  then show ?case by simp
next
  case (Cons l ls)
  from Cons.prems have "t \<in> set (text_loop lang i [l] []) \<or> t \<in> set (text_loop lang (Suc i) ls [])"
    unfolding text_loop_Cons[of lang i l ls] by simp
  then show ?case
  proof
    assume a: "t \<in> set (text_loop lang i [l] [])"
    obtain r spk tx where c: "classify i l = (r, spk, tx)" by (cases "classify i l") auto
    from a c have "tx \<noteq> []" by (auto split: if_splits)
    with a c have "classify i l = (role t, ConversationTurn.speaker_id t, original_text t)
       \<and> original_text t \<noteq> [] \<and> normalized_text_en t = original_text t
       \<and> ConversationTurn.emotion t = None \<and> ConversationTurn.language t = lang
       \<and> ConversationTurn.start_time t = None \<and> ConversationTurn.end_time t = None"
      by simp
    then show ?thesis by (intro exI[of _ i] exI[of _ l]) simp
  next
    assume "t \<in> set (text_loop lang (Suc i) ls [])"
    from Cons.IH[OF this] show ?thesis by auto
  qed
qed

lemma splitlines_no_linebreak:
  "l \<in> set (splitlines s) \<Longrightarrow> c \<in> set l \<Longrightarrow> \<not> is_linebreak c"
proof (induction s rule: splitlines.induct)
  case 1
  then show ?case by (simp add: splitlines.simps(1))
next
  case (2 a as)
  let ?P = "\<lambda>x. \<not> is_linebreak x"
  note unfold = splitlines.simps(2)[of a as]
  show ?case
  proof (cases "l = takeWhile ?P (a # as)")
    case True
    with "2.prems"(2) show ?thesis by (auto dest: set_takeWhileD)
  next
    case False
    show ?thesis
    proof (cases "dropWhile ?P (a # as)")
      case Nil
      with False "2.prems"(1) show ?thesis
        unfolding unfold by (simp del: dropWhile.simps takeWhile.simps)
    next
      case dw: (Cons b x)
      show ?thesis
      proof (cases x)
        case Nil
        with dw False "2.prems"(1) show ?thesis
          unfolding unfold by (simp del: dropWhile.simps takeWhile.simps)
      next
        case x: (Cons d r)
        show ?thesis
        proof (cases "b = CHR 0x0D \<and> d = CHR 0x0A")
          case True
          with dw x False "2.prems"(1) have "l \<in> set (splitlines r)"
            unfolding unfold by (simp del: dropWhile.simps takeWhile.simps)
          from "2.IH"(1)[OF dw x True this "2.prems"(2)] show ?thesis .
        next
          case no: False
          with dw x False "2.prems"(1) have "l \<in> set (splitlines (d # r))"
            unfolding unfold by (auto simp del: dropWhile.simps takeWhile.simps)
          from "2.IH"(2)[OF dw x no this "2.prems"(2)] show ?thesis .
        qed
      qed
    qed
  qed
qed

lemma join_nonempty: "y \<noteq> [] \<Longrightarrow> join sep (y # ys) \<noteq> []"
  by (cases ys) auto

lemma splitlines_plain:
  assumes "x \<noteq> []" and "\<forall>c\<in>set x. \<not> is_linebreak c"
  shows "splitlines x = [x]"
proof -
  from assms(1) obtain a as where x: "x = a # as" by (cases x) auto
  have "takeWhile (\<lambda>c. \<not> is_linebreak c) x = x" using assms(2) by (simp add: takeWhile_eq_all_conv)
  moreover have "dropWhile (\<lambda>c. \<not> is_linebreak c) x = []" using assms(2) by simp
  ultimately show ?thesis unfolding x by (simp add: splitlines.simps(2)[of a as])
qed

lemma splitlines_line_feed:
  assumes "x \<noteq> []" and "\<forall>c\<in>set x. \<not> is_linebreak c" and "rest \<noteq> []"
  shows "splitlines (x @ CHR 0x0A # rest) = x # splitlines rest"
proof -
  from assms(1) obtain a as where x: "x = a # as" by (cases x) auto
  from assms(3) obtain d r where rest: "rest = d # r" by (cases rest) auto
  have lf: "is_linebreak (CHR 0x0A)" by (simp add: is_linebreak_def)
  have t: "takeWhile (\<lambda>c. \<not> is_linebreak c) (x @ CHR 0x0A # rest) = x"
    using assms(2) lf by (simp add: takeWhile_append2)
  have d: "dropWhile (\<lambda>c. \<not> is_linebreak c) (x @ CHR 0x0A # rest) = CHR 0x0A # d # r"
    using assms(2) lf rest by (simp add: dropWhile_append2)
  have "splitlines ((a # as) @ CHR 0x0A # rest) = x # splitlines (d # r)"
    using t d unfolding x by (simp add: splitlines.simps(2)[of a "as @ CHR 0x0A # rest"])
  then show ?thesis unfolding x rest by simp
qed

lemma splitlines_join:
  "\<forall>l\<in>set ls. l \<noteq> [] \<and> (\<forall>c\<in>set l. \<not> is_linebreak c) \<Longrightarrow>
   splitlines (join [CHR 0x0A] ls) = ls"
proof (induction ls rule: induct_list012)
  case 1
  then show ?case by (simp add: splitlines.simps(1))
next
  case (2 x)
  then show ?case by (simp add: splitlines_plain)
next
  case (3 x y ys)
  have "join [CHR 0x0A] (y # ys) \<noteq> []" using 3(3) by (simp add: join_nonempty)
  then have "splitlines (x @ CHR 0x0A # join [CHR 0x0A] (y # ys)) =
        x # splitlines (join [CHR 0x0A] (y # ys))"
    using 3(3) by (intro splitlines_line_feed) auto
  also have "splitlines (join [CHR 0x0A] (y # ys)) = y # ys"
    using 3 by simp
  finally show ?case by simp
qed

lemma dialogue_loop_map: "dialogue_loop ts acc = acc @ map dialogue_line ts"
  by (induction ts arbitrary: acc) auto

lemma turns_to_dialogue_string_join:
  "turns_to_dialogue_string ts = join [CHR 0x0A] (map dialogue_line ts)"
  by (simp add: turns_to_dialogue_string_def dialogue_loop_map)

lemma transcript_lines_member:
  "l \<in> set (transcript_lines T) \<Longrightarrow> l \<noteq> [] \<and> (\<forall>c\<in>set l. \<not> is_linebreak c)"
proof -
  assume "l \<in> set (transcript_lines T)"
  then obtain l0 where l0: "l0 \<in> set (splitlines (strip T))" and l: "l = strip l0" and ne: "strip l0 \<noteq> []"
    by (auto simp: transcript_lines_def)
  have "\<forall>c\<in>set l. \<not> is_linebreak c"
    using splitlines_no_linebreak[OF l0] set_strip[of l0] unfolding l by blast
  with l ne show ?thesis by simp
qed

lemma capitalize_role_value:
  "capitalize (role_value r) = (case r of agent \<Rightarrow> ''Agent'' | customer \<Rightarrow> ''Customer'' | unknown \<Rightarrow> ''Unknown'')"
  by (cases r) (simp_all add: capitalize_def ascii_upper_def ascii_lower_def)

lemma text_turn_line:
  assumes "t \<in> set (normalize_from_text T lang)"
  shows "dialogue_line t \<noteq> [] \<and> (\<forall>c\<in>set (dialogue_line t). \<not> is_linebreak c)"
proof -
  from assms obtain j l where l: "l \<in> set (transcript_lines T)"
    and c: "classify j l = (role t, ConversationTurn.speaker_id t, original_text t)"
    and n: "normalized_text_en t = original_text t" and e: "ConversationTurn.emotion t = None"
    unfolding normalize_from_text_def using text_loop_member by blast
  have r: "role t = agent \<or> role t = customer" using c by (rule classify_role)
  have "set (original_text t) \<subseteq> set l" using c by (rule classify_text_set)
  then have tx: "\<forall>c\<in>set (original_text t). \<not> is_linebreak c"
    using transcript_lines_member[OF l] by blast
  have lab: "\<forall>c\<in>set (capitalize (role_value (role t)) @ '': ''). \<not> is_linebreak c"
    using r by (auto simp: capitalize_role_value is_linebreak_def)
  have d: "dialogue_line t = (capitalize (role_value (role t)) @ '': '') @ original_text t"
    by (simp add: dialogue_line_def e n)
  show ?thesis unfolding d using lab tx by auto
qed

lemma strip_blank: "\<forall>c\<in>set s. isspace c \<Longrightarrow> strip s = []"
proof -
  assume "\<forall>c\<in>set s. isspace c"
  then have "dropWhile isspace s = []" by simp
  then show ?thesis unfolding strip_def by (simp only: rev.simps dropWhile.simps)
qed

lemma splitlines_subset:
  "l \<in> set (splitlines s) \<Longrightarrow> set l \<subseteq> set s"
proof (induction s rule: splitlines.induct)
  case 1
  then show ?case by (simp add: splitlines.simps(1))
next
  case (2 a as)
  let ?P = "\<lambda>x. \<not> is_linebreak x"
  note unfold = splitlines.simps(2)[of a as]
  show ?case
  proof (cases "l = takeWhile ?P (a # as)")
    case True
    then show ?thesis by (auto dest: set_takeWhileD)
  next
    case False
    show ?thesis
    proof (cases "dropWhile ?P (a # as)")
      case Nil
      with False "2.prems"(1) show ?thesis
        unfolding unfold by (simp del: dropWhile.simps takeWhile.simps)
    next
      case dw: (Cons b x)
      show ?thesis
      proof (cases x)
        case Nil
        with dw False "2.prems"(1) show ?thesis
          unfolding unfold by (simp del: dropWhile.simps takeWhile.simps)
      next
        case x: (Cons d r)
        have sub: "set (d # r) \<subseteq> set (a # as)"
          using set_dropWhileD[of _ ?P "a # as"] unfolding dw x by auto
        show ?thesis
        proof (cases "b = CHR 0x0D \<and> d = CHR 0x0A")
          case True
          with dw x False "2.prems"(1) have "l \<in> set (splitlines r)"
            unfolding unfold by (simp del: dropWhile.simps takeWhile.simps)
          from "2.IH"(1)[OF dw x True this] sub show ?thesis by auto
        next
          case no: False
          with dw x False "2.prems"(1) have "l \<in> set (splitlines (d # r))"
            unfolding unfold by (auto simp del: dropWhile.simps takeWhile.simps)
          from "2.IH"(2)[OF dw x no this] sub show ?thesis by auto
        qed
      qed
    qed
  qed
qed

lemma blank_lines:
  assumes "\<forall>c\<in>set ws. isspace c"
  shows "filter (\<lambda>l. strip l \<noteq> []) (splitlines ws) = []"
proof -
  have "strip l = []" if "l \<in> set (splitlines ws)" for l
    using splitlines_subset[OF that] assms by (intro strip_blank) auto
  then show ?thesis by (simp add: filter_empty_conv)
qed

lemma strip_Cons_space: "isspace w \<Longrightarrow> strip (w # s) = strip s"
  by (simp add: strip_def)

lemma strip_append_space:
  assumes "\<forall>c\<in>set ws. isspace c"
  shows "strip (s @ ws) = strip s"
proof -
  have "dropWhile isspace (rev (dropWhile isspace (s @ ws))) = dropWhile isspace (rev (dropWhile isspace s))"
  proof (cases "\<forall>c\<in>set s. isspace c")
    case True
    then have "dropWhile isspace (s @ ws) = []" "dropWhile isspace s = []"
      using assms by auto
    then show ?thesis by (simp only: rev.simps dropWhile.simps)
  next
    case False
    then obtain x where "x \<in> set s" "\<not> isspace x" by blast
    then have "dropWhile isspace (s @ ws) = dropWhile isspace s @ ws"
      by (rule dropWhile_append1)
    moreover have "dropWhile isspace (rev ws @ r) = dropWhile isspace r" for r
      using assms by (simp add: dropWhile_append)
    ultimately show ?thesis by simp
  qed
  then show ?thesis by (simp only: strip_def)
qed

lemma splitlines_Cons_linebreak:
  "is_linebreak w \<Longrightarrow>
   splitlines (w # s) =
     [] # (case s of [] \<Rightarrow> []
           | d # r \<Rightarrow> if w = CHR 0x0D \<and> d = CHR 0x0A then splitlines r else splitlines (d # r))"
  by (cases s) (simp_all add: splitlines.simps(2)[of w])

lemma strip_Nil: "strip [] = []"
  by (simp add: strip_def)

lemma nonblank_lines_Nil: "nonblank_lines [] = []"
  by (simp add: nonblank_lines_def splitlines.simps(1))

lemma nonblank_lines_blank_Cons:
  "nonblank_lines s = map strip (filter (\<lambda>l. strip l \<noteq> []) ([] # splitlines s))"
  by (simp add: nonblank_lines_def strip_Nil)

lemma nonblank_lines_linebreak:
  assumes "is_linebreak w"
  shows "nonblank_lines (w # s) = nonblank_lines s"
proof (cases s)
  case Nil
  then show ?thesis
    using assms by (simp add: nonblank_lines_def splitlines_Cons_linebreak strip_Nil splitlines.simps(1))
next
  case (Cons d r)
  show ?thesis
  proof (cases "w = CHR 0x0D \<and> d = CHR 0x0A")
    case True
    have lf: "is_linebreak d" using True by (simp add: is_linebreak_def)
    have "splitlines (d # r) =
            [] # (case r of [] \<Rightarrow> []
                  | d' # r' \<Rightarrow> if d = CHR 0x0D \<and> d' = CHR 0x0A then splitlines r'
                                else splitlines (d' # r'))"
      by (rule splitlines_Cons_linebreak[OF lf])
    also have "(case r of [] \<Rightarrow> []
                  | d' # r' \<Rightarrow> if d = CHR 0x0D \<and> d' = CHR 0x0A then splitlines r'
                                else splitlines (d' # r')) = splitlines r"
      using True by (cases r) (simp_all add: splitlines.simps(1))
    finally have "splitlines (d # r) = [] # splitlines r" .
    then have "nonblank_lines (d # r) = nonblank_lines r"
      by (simp add: nonblank_lines_def strip_Nil)
    moreover have "splitlines (w # d # r) = [] # splitlines r"
      unfolding splitlines_Cons_linebreak[OF assms, of "d # r"] using True by simp
    then have "nonblank_lines (w # d # r) = nonblank_lines r"
      by (simp add: nonblank_lines_def strip_Nil)
    ultimately show ?thesis unfolding Cons by simp
  next
    case False
    then have "splitlines (w # d # r) = [] # splitlines (d # r)"
      unfolding splitlines_Cons_linebreak[OF assms, of "d # r"] by auto
    then show ?thesis unfolding Cons
      by (simp add: nonblank_lines_def strip_Nil)
  qed
qed

lemma nonblank_lines_space:
  assumes "isspace w"
  shows "nonblank_lines (w # s) = nonblank_lines s"
proof (cases "is_linebreak w")
  case True
  then show ?thesis by (rule nonblank_lines_linebreak)
next
  case False
  show ?thesis
  proof (cases s)
    case Nil
    have "strip [w] = []" using assms by (simp add: strip_def)
    then show ?thesis unfolding Nil
      using False by (simp add: nonblank_lines_def splitlines.simps)
  next
    case (Cons c cs)
    obtain h t where B: "splitlines (c # cs) = h # t"
      by (simp add: splitlines.simps(2)[of c])
    have A: "splitlines (w # c # cs) = (w # h) # t"
      using B False by (simp add: splitlines.simps(2)[of w] splitlines.simps(2)[of c])
    show ?thesis unfolding Cons nonblank_lines_def A B
      by (simp add: strip_Cons_space[OF assms])
  qed
qed

lemma nonblank_lines_dropWhile: "nonblank_lines (dropWhile isspace s) = nonblank_lines s"
  by (induction s) (simp_all add: nonblank_lines_space)

lemma rest_lines_blank:
  assumes "\<forall>c\<in>set x. isspace c"
  shows "filter (\<lambda>l. strip l \<noteq> [])
           (case x of [] \<Rightarrow> [] | [b] \<Rightarrow> []
            | b # d # r \<Rightarrow> if b = CHR 0x0D \<and> d = CHR 0x0A then splitlines r
                           else splitlines (d # r)) = []"
proof (cases x)
  case Nil
  then show ?thesis by simp
next
  case (Cons b y)
  show ?thesis
  proof (cases y)
    case Nil
    with Cons show ?thesis by simp
  next
    case y: (Cons d r)
    have "filter (\<lambda>l. strip l \<noteq> []) (splitlines r) = []"
      using assms unfolding Cons y by (intro blank_lines) simp
    moreover have "filter (\<lambda>l. strip l \<noteq> []) (splitlines (d # r)) = []"
      using assms unfolding Cons y by (intro blank_lines) simp
    ultimately show ?thesis unfolding Cons y by simp
  qed
qed

lemma nonblank_lines_append_space:
  assumes ws: "\<forall>c\<in>set ws. isspace c"
  shows "nonblank_lines (s @ ws) = nonblank_lines s"
proof (induction s rule: splitlines.induct)
  case 1
  show ?case using blank_lines[OF ws] by (simp add: nonblank_lines_def splitlines.simps(1))
next
  case (2 a as)
  let ?P = "\<lambda>x. \<not> is_linebreak x"
  let ?s = "a # as"
  note u1 = splitlines.simps(2)[of a as]
  note u2 = splitlines.simps(2)[of a "as @ ws"]
  show ?case
  proof (cases "\<forall>c\<in>set ?s. ?P c")
    case True
    then have t: "takeWhile ?P (a # as @ ws) = ?s @ takeWhile ?P ws"
      and d: "dropWhile ?P (a # as @ ws) = dropWhile ?P ws"
      and d0: "dropWhile ?P ?s = []" and t0: "takeWhile ?P ?s = ?s"
      using takeWhile_append2[of ?s ?P ws] dropWhile_append2[of ?s ?P ws]
      by (simp_all add: takeWhile_eq_all_conv)
    have sp: "\<forall>c\<in>set (dropWhile ?P ws). isspace c"
      using ws by (meson set_dropWhileD)
    have st: "strip (?s @ takeWhile ?P ws) = strip ?s"
      using ws by (intro strip_append_space) (meson set_takeWhileD)
    have "nonblank_lines (?s @ ws) = map strip (filter (\<lambda>l. strip l \<noteq> []) [?s @ takeWhile ?P ws])"
      unfolding nonblank_lines_def append_Cons u2 t d
      using rest_lines_blank[OF sp] by (simp del: dropWhile.simps takeWhile.simps)
    also have "\<dots> = map strip (filter (\<lambda>l. strip l \<noteq> []) [?s])"
      using st by simp
    also have "\<dots> = nonblank_lines ?s"
      unfolding nonblank_lines_def u1 t0 d0 by simp
    finally show ?thesis .
  next
    case False
    then obtain x where x: "x \<in> set ?s" "\<not> ?P x" by blast
    have t: "takeWhile ?P (a # as @ ws) = takeWhile ?P ?s"
      using takeWhile_append1[of x ?s ?P ws] x by simp
    have d: "dropWhile ?P (a # as @ ws) = dropWhile ?P ?s @ ws"
      using dropWhile_append1[of x ?s ?P ws] x by simp
    show ?thesis
    proof (cases "dropWhile ?P ?s")
      case Nil
      then have "\<forall>c\<in>set ?s. ?P c" by (simp only: dropWhile_eq_Nil_conv)
      with False show ?thesis by blast
    next
      case dw: (Cons b y)
      have "\<not> ?P (hd (dropWhile ?P ?s))"
        by (rule hd_dropWhile) (simp add: dw del: dropWhile.simps)
      then have b: "isspace b" unfolding dw by (simp add: is_linebreak_isspace)
      show ?thesis
      proof (cases y)
        case Nil
        have "nonblank_lines (?s @ ws) =
                map strip (filter (\<lambda>l. strip l \<noteq> []) [takeWhile ?P ?s])"
          unfolding nonblank_lines_def append_Cons u2 t d dw Nil
          using rest_lines_blank[of "b # ws"] ws b
          by (simp del: dropWhile.simps takeWhile.simps)
        also have "\<dots> = nonblank_lines ?s"
          unfolding nonblank_lines_def u1 dw Nil by simp
        finally show ?thesis .
      next
        case y: (Cons e r)
        show ?thesis
        proof (cases "b = CHR 0x0D \<and> e = CHR 0x0A")
          case True
          have "nonblank_lines (?s @ ws) =
                  map strip (filter (\<lambda>l. strip l \<noteq> []) [takeWhile ?P ?s]) @ nonblank_lines (r @ ws)"
            unfolding nonblank_lines_def append_Cons u2 t d dw y
            using True by (simp del: dropWhile.simps takeWhile.simps)
          also have "nonblank_lines (r @ ws) = nonblank_lines r"
            by (rule "2.IH"(1)[OF dw y True])
          also have "map strip (filter (\<lambda>l. strip l \<noteq> []) [takeWhile ?P ?s]) @ nonblank_lines r =
                     nonblank_lines ?s"
            unfolding nonblank_lines_def u1 dw y
            using True by (simp del: dropWhile.simps takeWhile.simps)
          finally show ?thesis .
        next
          case no: False
          have "nonblank_lines (?s @ ws) =
                  map strip (filter (\<lambda>l. strip l \<noteq> []) [takeWhile ?P ?s]) @ nonblank_lines ((e # r) @ ws)"
            unfolding nonblank_lines_def append_Cons u2 t d dw y
            using no by (auto simp del: dropWhile.simps takeWhile.simps)
          also have "nonblank_lines ((e # r) @ ws) = nonblank_lines (e # r)"
            by (rule "2.IH"(2)[OF dw y no])
          also have "map strip (filter (\<lambda>l. strip l \<noteq> []) [takeWhile ?P ?s]) @ nonblank_lines (e # r) =
                     nonblank_lines ?s"
            unfolding nonblank_lines_def u1 dw y
            using no by (auto simp del: dropWhile.simps takeWhile.simps)
          finally show ?thesis .
        qed
      qed
    qed
  qed
qed

lemma nonblank_lines_strip: "nonblank_lines (strip s) = nonblank_lines s"
proof -
  let ?m = "dropWhile isspace s"
  have "rev ?m = takeWhile isspace (rev ?m) @ dropWhile isspace (rev ?m)" by simp
  then have "?m = strip s @ rev (takeWhile isspace (rev ?m))"
    unfolding strip_def by (metis rev_append rev_rev_ident)
  moreover have "\<forall>c\<in>set (rev (takeWhile isspace (rev ?m))). isspace c"
    by (auto dest: set_takeWhileD)
  ultimately have "nonblank_lines ?m = nonblank_lines (strip s)"
    using nonblank_lines_append_space by metis
  then show ?thesis by (simp add: nonblank_lines_dropWhile)
qed

lemma transcript_lines_nonblank: "transcript_lines T = nonblank_lines T"
  using nonblank_lines_strip[of T] by (simp add: transcript_lines_def nonblank_lines_def)

text \<open>
  C6. Every turn of the text path has a non-empty original text and the same text as
  its English text; the lines whose text is empty after the prefix is removed give no
  turn, so the turns are as many as the lines with a non-empty text.
\<close>

theorem text_turns_nonempty:
  "(\<forall>t\<in>set (normalize_from_text T lang).
      original_text t \<noteq> [] \<and> normalized_text_en t = original_text t) \<and>
   length (normalize_from_text T lang) =
     length (filter (\<lambda>(i, l). snd (snd (classify i l)) \<noteq> []) (enumerate 0 (transcript_lines T)))"
proof
  show "\<forall>t\<in>set (normalize_from_text T lang).
      original_text t \<noteq> [] \<and> normalized_text_en t = original_text t"
    unfolding normalize_from_text_def using text_loop_member by blast
next
  show "length (normalize_from_text T lang) =
     length (filter (\<lambda>(i, l). snd (snd (classify i l)) \<noteq> []) (enumerate 0 (transcript_lines T)))"
    unfolding normalize_from_text_def by (rule text_loop_length)
qed

theorem text_turns_nonempty_witness:
  "map original_text (normalize_from_text ''Agent:\<newline>Customer - my card'' ''en'') = [''my card''] \<and>
   map normalized_text_en (normalize_from_text ''Agent:\<newline>Customer - my card'' ''en'') = [''my card'']"
  using text_turns_nonempty[of "''Agent:\<newline>Customer - my card''" "''en''"]
  by code_simp

text \<open>
  C7. The renderer returns the empty string for no turns. Otherwise each turn gives one
  line: the capitalized role, then the emotion in square brackets after a space when
  the turn has one (an absent emotion, and an empty one, give no tag), then a colon, a
  space and the English text. A line feed stands between two lines and none at the end.
\<close>

theorem dialogue_string_format:
  "turns_to_dialogue_string [] = [] \<and>
   turns_to_dialogue_string (t # ts) =
     (case role t of agent \<Rightarrow> ''Agent'' | customer \<Rightarrow> ''Customer'' | unknown \<Rightarrow> ''Unknown'') @
     (case ConversationTurn.emotion t of
        None \<Rightarrow> []
      | Some e \<Rightarrow> if e = [] then [] else '' ['' @ e @ '']'') @
     '': '' @ normalized_text_en t @
     (if ts = [] then [] else CHR 0x0A # turns_to_dialogue_string ts)"
proof -
  have "dialogue_line t =
     (case role t of agent \<Rightarrow> ''Agent'' | customer \<Rightarrow> ''Customer'' | unknown \<Rightarrow> ''Unknown'') @
     (case ConversationTurn.emotion t of
        None \<Rightarrow> []
      | Some e \<Rightarrow> if e = [] then [] else '' ['' @ e @ '']'') @
     '': '' @ normalized_text_en t"
    by (simp add: dialogue_line_def capitalize_role_value)
  then show ?thesis
    by (cases ts) (simp_all add: turns_to_dialogue_string_join)
qed

text \<open>
  C9. No segments, the empty transcript and a transcript of white space only (blank
  lines included: every line boundary is white space) all give no turns, and no turns
  render as the empty string. The functions are total: there is no error to return.
\<close>

theorem degenerate_inputs_empty:
  "normalize_from_speech [] = [] \<and>
   normalize_from_text [] lang = [] \<and>
   ((\<forall>c\<in>set T. isspace c) \<longrightarrow> normalize_from_text T lang = []) \<and>
   turns_to_dialogue_string [] = []"
  by (simp add: normalize_from_speech_def normalize_from_text_def transcript_lines_def
      strip_blank splitlines.simps(1) turns_to_dialogue_string_def)

theorem degenerate_inputs_empty_witness:
  "list_all isspace ''   \<newline>\<newline>  '' \<and>
   normalize_from_text ''   \<newline>\<newline>  '' ''en'' = [] \<and>
   turns_to_dialogue_string (normalize_from_text ''   \<newline>\<newline>  '' ''en'') = []"
proof -
  have b: "\<forall>c\<in>set ''   \<newline>\<newline>  ''. isspace c" by (simp add: isspace_def)
  with degenerate_inputs_empty[of "''en''" "''   \<newline>\<newline>  ''"]
  have "normalize_from_text ''   \<newline>\<newline>  '' ''en'' = []" by blast
  with b show ?thesis by (simp add: turns_to_dialogue_string_def list_all_iff)
qed

section \<open>Line classification\<close>

lemma text_loop_at:
  "text_loop lang 0 (pre @ line # post) [] =
     text_loop lang 0 pre [] @ text_loop lang (length pre) [line] [] @
     text_loop lang (Suc (length pre)) post []"
  using text_loop_append[of lang 0 pre "line # post"]
        text_loop_Cons[of lang "length pre" line post]
  by simp

lemma text_loop_unlabelled:
  assumes "\<forall>l\<in>set ls. l \<noteq> [] \<and> AGENT_PREFIX l = None \<and> CUSTOMER_PREFIX l = None \<and> SPEAKER_PREFIX l = None"
  shows "text_loop lang i ls [] =
     map (\<lambda>(j, l). \<lparr>ConversationTurn.speaker_id = (if j mod 2 = 0 then ''AGENT'' else ''CUSTOMER''),
                      role = (if j mod 2 = 0 then agent else customer),
                      original_text = l, normalized_text_en = l, language = lang,
                      emotion = None, start_time = None, end_time = None\<rparr>)
         (enumerate i ls)"
  using assms
proof (induction ls arbitrary: i)
  case Nil
  then show ?case by simp
next
  case (Cons l ls)
  have c: "classify i l = (if i mod 2 = 0 then (agent, ''AGENT'', l) else (customer, ''CUSTOMER'', l))"
    using Cons.prems by (simp add: classify_def)
  have ne: "l \<noteq> []" using Cons.prems by simp
  have "text_loop lang i (l # ls) [] = text_loop lang i [l] [] @ text_loop lang (Suc i) ls []"
    by (rule text_loop_Cons)
  also have "text_loop lang (Suc i) ls [] = map (\<lambda>(j, l). \<lparr>ConversationTurn.speaker_id = (if j mod 2 = 0 then ''AGENT'' else ''CUSTOMER''),
                      role = (if j mod 2 = 0 then agent else customer),
                      original_text = l, normalized_text_en = l, language = lang,
                      emotion = None, start_time = None, end_time = None\<rparr>)
         (enumerate (Suc i) ls)"
    using Cons.prems by (intro Cons.IH) simp
  finally show ?case using c ne by (simp add: text_loop_single del: text_loop.simps)
qed

text \<open>
  C5. When no line fed to the parser (the stripped, non-blank lines of the transcript)
  carries a recognized label, the turns are these lines in order, the line at an even
  zero-based position as the agent "AGENT" and the line at an odd position as the
  customer "CUSTOMER". In any transcript, an unlabelled line at position \<open>length pre\<close>
  among the lines fed to the parser gets its role from that position, whether or not
  lines before it gave a turn.
\<close>

theorem unlabelled_lines_alternate:
  "((\<forall>l\<in>set (transcript_lines T).
       AGENT_PREFIX l = None \<and> CUSTOMER_PREFIX l = None \<and> SPEAKER_PREFIX l = None) \<longrightarrow>
    normalize_from_text T lang =
      map (\<lambda>(i, l). \<lparr>ConversationTurn.speaker_id = (if i mod 2 = 0 then ''AGENT'' else ''CUSTOMER''),
                       role = (if i mod 2 = 0 then agent else customer),
                       original_text = l, normalized_text_en = l, language = lang,
                       emotion = None, start_time = None, end_time = None\<rparr>)
          (enumerate 0 (transcript_lines T))) \<and>
   (transcript_lines T = pre @ line # post \<and>
    AGENT_PREFIX line = None \<and> CUSTOMER_PREFIX line = None \<and> SPEAKER_PREFIX line = None \<longrightarrow>
    normalize_from_text T lang =
      text_loop lang 0 pre [] @
      [\<lparr>ConversationTurn.speaker_id = (if length pre mod 2 = 0 then ''AGENT'' else ''CUSTOMER''),
        role = (if length pre mod 2 = 0 then agent else customer),
        original_text = line, normalized_text_en = line, language = lang,
        emotion = None, start_time = None, end_time = None\<rparr>] @
      text_loop lang (Suc (length pre)) post [])"
proof (intro conjI impI)
  assume a: "\<forall>l\<in>set (transcript_lines T).
       AGENT_PREFIX l = None \<and> CUSTOMER_PREFIX l = None \<and> SPEAKER_PREFIX l = None"
  have "\<forall>l\<in>set (transcript_lines T). l \<noteq> [] \<and> AGENT_PREFIX l = None \<and> CUSTOMER_PREFIX l = None \<and> SPEAKER_PREFIX l = None"
    using a transcript_lines_member by blast
  then show "normalize_from_text T lang =
      map (\<lambda>(i, l). \<lparr>ConversationTurn.speaker_id = (if i mod 2 = 0 then ''AGENT'' else ''CUSTOMER''),
                       role = (if i mod 2 = 0 then agent else customer),
                       original_text = l, normalized_text_en = l, language = lang,
                       emotion = None, start_time = None, end_time = None\<rparr>)
          (enumerate 0 (transcript_lines T))"
    unfolding normalize_from_text_def by (rule text_loop_unlabelled)
next
  assume a: "transcript_lines T = pre @ line # post \<and>
    AGENT_PREFIX line = None \<and> CUSTOMER_PREFIX line = None \<and> SPEAKER_PREFIX line = None"
  then have "line \<in> set (transcript_lines T)" by simp
  then have ne: "line \<noteq> []" using transcript_lines_member by blast
  have c: "classify (length pre) line =
     (if length pre mod 2 = 0 then (agent, ''AGENT'', line) else (customer, ''CUSTOMER'', line))"
    using a by (simp add: classify_def)
  show "normalize_from_text T lang =
      text_loop lang 0 pre [] @
      [\<lparr>ConversationTurn.speaker_id = (if length pre mod 2 = 0 then ''AGENT'' else ''CUSTOMER''),
        role = (if length pre mod 2 = 0 then agent else customer),
        original_text = line, normalized_text_en = line, language = lang,
        emotion = None, start_time = None, end_time = None\<rparr>] @
      text_loop lang (Suc (length pre)) post []"
    unfolding normalize_from_text_def using a c ne
    by (simp add: text_loop_at text_loop_single del: text_loop.simps)
qed

theorem unlabelled_lines_alternate_witness:
  "normalize_from_text ''Hello, how can I help?\<newline>\<newline>  My card is blocked\<newline>Let me check'' ''en'' =
     [\<lparr>ConversationTurn.speaker_id = ''AGENT'', role = agent,
        original_text = ''Hello, how can I help?'', normalized_text_en = ''Hello, how can I help?'',
        language = ''en'', emotion = None, start_time = None, end_time = None\<rparr>,
      \<lparr>ConversationTurn.speaker_id = ''CUSTOMER'', role = customer,
        original_text = ''My card is blocked'', normalized_text_en = ''My card is blocked'',
        language = ''en'', emotion = None, start_time = None, end_time = None\<rparr>,
      \<lparr>ConversationTurn.speaker_id = ''AGENT'', role = agent,
        original_text = ''Let me check'', normalized_text_en = ''Let me check'',
        language = ''en'', emotion = None, start_time = None, end_time = None\<rparr>] \<and>
   normalize_from_text ''Agent:\<newline>my card is blocked'' ''en'' =
     [\<lparr>ConversationTurn.speaker_id = ''CUSTOMER'', role = customer,
        original_text = ''my card is blocked'', normalized_text_en = ''my card is blocked'',
        language = ''en'', emotion = None, start_time = None, end_time = None\<rparr>]"
proof -
  let ?T = "''Hello, how can I help?\<newline>\<newline>  My card is blocked\<newline>Let me check''"
  have l2: "transcript_lines ''Agent:\<newline>my card is blocked'' =
              [''Agent:''] @ ''my card is blocked'' # []"
    by code_simp
  have h2: "AGENT_PREFIX ''my card is blocked'' = None \<and>
            CUSTOMER_PREFIX ''my card is blocked'' = None \<and>
            SPEAKER_PREFIX ''my card is blocked'' = None"
    by code_simp
  have e2: "normalize_from_text ''Agent:\<newline>my card is blocked'' ''en'' =
      text_loop ''en'' 0 [''Agent:''] [] @
      [\<lparr>ConversationTurn.speaker_id = (if length [''Agent:''] mod 2 = 0 then ''AGENT'' else ''CUSTOMER''),
        role = (if length [''Agent:''] mod 2 = 0 then agent else customer),
        original_text = ''my card is blocked'', normalized_text_en = ''my card is blocked'',
        language = ''en'', emotion = None, start_time = None, end_time = None\<rparr>] @
      text_loop ''en'' (Suc (length [''Agent:''])) [] []"
    using l2 h2
    by (intro unlabelled_lines_alternate[THEN conjunct2, THEN mp]) simp
  have l: "transcript_lines ?T = [''Hello, how can I help?'', ''My card is blocked'', ''Let me check'']"
    by code_simp
  have h: "\<forall>l\<in>set (transcript_lines ?T).
       AGENT_PREFIX l = None \<and> CUSTOMER_PREFIX l = None \<and> SPEAKER_PREFIX l = None"
    unfolding l by code_simp
  have e: "enumerate 0 [''Hello, how can I help?'', ''My card is blocked'', ''Let me check''] =
     [(0, ''Hello, how can I help?''), (1, ''My card is blocked''), (2, ''Let me check'')]"
    by (simp add: enumerate_eq_zip upt_rec)
  from unlabelled_lines_alternate[of ?T "''en''" "[]" "''Hello, how can I help?''" "[''My card is blocked'', ''Let me check'']"] h
  have "normalize_from_text ?T ''en'' =
      map (\<lambda>(i, l). \<lparr>ConversationTurn.speaker_id = (if i mod 2 = 0 then ''AGENT'' else ''CUSTOMER''),
                       role = (if i mod 2 = 0 then agent else customer),
                       original_text = l, normalized_text_en = l, language = ''en'',
                       emotion = None, start_time = None, end_time = None\<rparr>)
          (enumerate 0 (transcript_lines ?T))"
    by blast
  then have e1: "normalize_from_text ?T ''en'' =
     [\<lparr>ConversationTurn.speaker_id = ''AGENT'', role = agent,
        original_text = ''Hello, how can I help?'', normalized_text_en = ''Hello, how can I help?'',
        language = ''en'', emotion = None, start_time = None, end_time = None\<rparr>,
      \<lparr>ConversationTurn.speaker_id = ''CUSTOMER'', role = customer,
        original_text = ''My card is blocked'', normalized_text_en = ''My card is blocked'',
        language = ''en'', emotion = None, start_time = None, end_time = None\<rparr>,
      \<lparr>ConversationTurn.speaker_id = ''AGENT'', role = agent,
        original_text = ''Let me check'', normalized_text_en = ''Let me check'',
        language = ''en'', emotion = None, start_time = None, end_time = None\<rparr>]"
    unfolding l e by simp
  show ?thesis unfolding e1 e2 by code_simp
qed

lemma ascii_lower_pattern:
  "ascii_lower (CHR ''A'') = CHR ''a''" "ascii_lower (CHR ''C'') = CHR ''c''"
  "ascii_lower (CHR ''E'') = CHR ''e''" "ascii_lower (CHR ''G'') = CHR ''g''"
  "ascii_lower (CHR ''K'') = CHR ''k''" "ascii_lower (CHR ''M'') = CHR ''m''"
  "ascii_lower (CHR ''N'') = CHR ''n''" "ascii_lower (CHR ''O'') = CHR ''o''"
  "ascii_lower (CHR ''P'') = CHR ''p''" "ascii_lower (CHR ''R'') = CHR ''r''"
  "ascii_lower (CHR ''S'') = CHR ''s''" "ascii_lower (CHR ''T'') = CHR ''t''"
  "ascii_lower (CHR ''U'') = CHR ''u''" "ascii_lower (CHR ''_'') = CHR ''_''"
  "ascii_lower (CHR ''a'') = CHR ''a''" "ascii_lower (CHR ''e'') = CHR ''e''"
  "ascii_lower (CHR ''g'') = CHR ''g''" "ascii_lower (CHR ''i'') = CHR ''i''"
  "ascii_lower (CHR ''l'') = CHR ''l''" "ascii_lower (CHR ''m'') = CHR ''m''"
  "ascii_lower (CHR ''n'') = CHR ''n''" "ascii_lower (CHR ''o'') = CHR ''o''"
  "ascii_lower (CHR ''p'') = CHR ''p''" "ascii_lower (CHR ''r'') = CHR ''r''"
  "ascii_lower (CHR ''s'') = CHR ''s''" "ascii_lower (CHR ''t'') = CHR ''t''"
  "ascii_lower (CHR ''u'') = CHR ''u''" "ascii_lower (CHR ''v'') = CHR ''v''"
  by (simp_all add: ascii_lower_def)

lemma match_separator_shape:
  assumes "\<forall>c\<in>set ws. isspace c" and "sep = CHR '':'' \<or> sep = CHR ''-''"
  shows "match_separator (ws @ sep # remainder) = Some (dropWhile isspace remainder)"
proof -
  have "\<not> isspace sep" using assms(2) by (auto simp: isspace_def)
  then have "dropWhile isspace (ws @ sep # remainder) = sep # remainder"
    using assms(1) by (simp add: dropWhile_append)
  then show ?thesis using assms(2) by (auto simp: match_separator_def)
qed

lemma strip_dropWhile: "strip (dropWhile isspace s) = strip s"
  by (simp add: strip_def dropWhile_idem)

lemma match_literal_ci:
  "map ascii_lower label = map ascii_lower a \<Longrightarrow> match_literal a (label @ rest) = Some rest"
proof (induction a arbitrary: label)
  case Nil
  then show ?case by simp
next
  case (Cons p ps)
  then obtain c cs where "label = c # cs" "ascii_lower c = ascii_lower p"
    "map ascii_lower cs = map ascii_lower ps"
    by (auto simp: map_eq_Cons_conv)
  with Cons.IH[of cs] show ?case by simp
qed

lemma match_literal_mismatch1:
  "map ascii_lower label = x # xs \<Longrightarrow> x \<noteq> ascii_lower p \<Longrightarrow>
   match_literal (p # ps) (label @ rest) = None"
  by (auto simp: map_eq_Cons_conv)

lemma match_literal_mismatch2:
  "map ascii_lower label = x # y # xs \<Longrightarrow> y \<noteq> ascii_lower q \<Longrightarrow>
   match_literal (p # q # ps) (label @ rest) = None"
  by (auto simp: map_eq_Cons_conv)

lemma AGENT_PREFIX_shape:
  assumes "map ascii_lower label \<in> set [''agent'', ''support'', ''csr'', ''representative'']"
    and "\<forall>c\<in>set ws. isspace c" and "sep = CHR '':'' \<or> sep = CHR ''-''"
  shows "AGENT_PREFIX (label @ ws @ sep # remainder) = Some (dropWhile isspace remainder)"
proof -
  note m = match_separator_shape[OF assms(2,3), of remainder]
  from assms(1) consider "map ascii_lower label = ''agent''" | "map ascii_lower label = ''support''"
    | "map ascii_lower label = ''csr''" | "map ascii_lower label = ''representative''"
    by auto
  then show ?thesis
  proof cases
    case 1
    then show ?thesis unfolding AGENT_PREFIX_def
      by (simp add: match_literal_ci ascii_lower_pattern m)
  next
    case 2
    then show ?thesis unfolding AGENT_PREFIX_def
      by (simp add: match_literal_ci match_literal_mismatch1[OF 2] ascii_lower_pattern m)
  next
    case 3
    then show ?thesis unfolding AGENT_PREFIX_def
      by (simp add: match_literal_ci match_literal_mismatch1[OF 3] ascii_lower_pattern m)
  next
    case 4
    then show ?thesis unfolding AGENT_PREFIX_def
      by (simp add: match_literal_ci match_literal_mismatch1[OF 4] ascii_lower_pattern m)
  qed
qed

lemma CUSTOMER_PREFIX_shape:
  assumes "map ascii_lower label \<in> set [''customer'', ''client'', ''user'', ''caller'']"
    and "\<forall>c\<in>set ws. isspace c" and "sep = CHR '':'' \<or> sep = CHR ''-''"
  shows "CUSTOMER_PREFIX (label @ ws @ sep # remainder) = Some (dropWhile isspace remainder)"
    and "AGENT_PREFIX (label @ ws @ sep # remainder) = None"
proof -
  note m = match_separator_shape[OF assms(2,3), of remainder]
  from assms(1) consider "map ascii_lower label = ''customer''" | "map ascii_lower label = ''client''"
    | "map ascii_lower label = ''user''" | "map ascii_lower label = ''caller''"
    by auto
  then have "CUSTOMER_PREFIX (label @ ws @ sep # remainder) = Some (dropWhile isspace remainder)
     \<and> AGENT_PREFIX (label @ ws @ sep # remainder) = None"
  proof cases
    case 1
    then show ?thesis unfolding CUSTOMER_PREFIX_def AGENT_PREFIX_def
      by (simp add: match_literal_ci match_literal_mismatch1[OF 1] match_literal_mismatch2[OF 1]
          ascii_lower_pattern m)
  next
    case 2
    then show ?thesis unfolding CUSTOMER_PREFIX_def AGENT_PREFIX_def
      by (simp add: match_literal_ci match_literal_mismatch1[OF 2] match_literal_mismatch2[OF 2]
          ascii_lower_pattern m)
  next
    case 3
    then show ?thesis unfolding CUSTOMER_PREFIX_def AGENT_PREFIX_def
      by (simp add: match_literal_ci match_literal_mismatch1[OF 3] match_literal_mismatch2[OF 3]
          ascii_lower_pattern m)
  next
    case 4
    then show ?thesis unfolding CUSTOMER_PREFIX_def AGENT_PREFIX_def
      by (simp add: match_literal_ci match_literal_mismatch1[OF 4] match_literal_mismatch2[OF 4]
          ascii_lower_pattern m)
  qed
  then show "CUSTOMER_PREFIX (label @ ws @ sep # remainder) = Some (dropWhile isspace remainder)"
    and "AGENT_PREFIX (label @ ws @ sep # remainder) = None" by simp_all
qed

lemma isspace_not_digit: "isspace c \<Longrightarrow> \<not> re_digit c"
  by (auto simp: isspace_def re_digit_def)

lemma takeWhile_digits:
  assumes "\<forall>c\<in>set digits. re_digit c" and "\<forall>c\<in>set ws. isspace c"
    and "sep = CHR '':'' \<or> sep = CHR ''-''"
  shows "takeWhile re_digit (digits @ ws @ sep # remainder) = digits"
    and "dropWhile re_digit (digits @ ws @ sep # remainder) = ws @ sep # remainder"
proof -
  have s: "\<not> re_digit sep" using assms(3) by (auto simp: re_digit_def)
  have "takeWhile re_digit (ws @ sep # remainder) = []"
    using assms(2) s by (cases ws) (auto simp: isspace_not_digit)
  then have t: "takeWhile re_digit (ws @ sep # remainder) = []
      \<and> dropWhile re_digit (ws @ sep # remainder) = ws @ sep # remainder"
    by (simp add: takeWhile_eq_Nil_iff dropWhile_eq_self_iff)
  show "takeWhile re_digit (digits @ ws @ sep # remainder) = digits"
    using assms(1) t by (simp add: takeWhile_append)
  show "dropWhile re_digit (digits @ ws @ sep # remainder) = ws @ sep # remainder"
    using assms(1) t by (simp add: dropWhile_append)
qed

lemma ascii_lower_other:
  "c \<notin> set ''ABCDEFGHIJKLMNOPQRSTUVWXYZ'' \<Longrightarrow> ascii_lower c = c"
  by (simp add: ascii_lower_def)

lemma ascii_upper_other:
  "c \<notin> set ''abcdefghijklmnopqrstuvwxyz'' \<Longrightarrow> ascii_upper c = c"
  by (simp add: ascii_upper_def)

lemma ascii_lower_upper_letter:
  "c \<in> set ''ABCDEFGHIJKLMNOPQRSTUVWXYZ'' \<Longrightarrow> ascii_upper (ascii_lower c) = c \<and> ascii_upper c = c"
  by (auto simp: ascii_upper_def ascii_lower_def)

lemma upper_lower: "ascii_upper (ascii_lower c) = ascii_upper c"
proof (cases "c \<in> set ''ABCDEFGHIJKLMNOPQRSTUVWXYZ''")
  case True
  then show ?thesis using ascii_lower_upper_letter by simp
next
  case False
  then show ?thesis by (simp add: ascii_lower_other)
qed

lemma upper_digit: "re_digit c \<Longrightarrow> ascii_upper c = c"
proof -
  assume "re_digit c"
  then have "c \<notin> set ''abcdefghijklmnopqrstuvwxyz''"
    unfolding re_digit_def by auto
  then show ?thesis by (rule ascii_upper_other)
qed

lemma upper_speaker_label:
  assumes "map ascii_lower label = ''speaker_''" and "\<forall>c\<in>set digits. re_digit c"
  shows "upper (label @ digits) = ''SPEAKER_'' @ digits"
proof -
  have "map ascii_upper label = map ascii_upper (map ascii_lower label)"
    by (simp add: upper_lower)
  also have "\<dots> = ''SPEAKER_''" unfolding assms(1) by (simp add: ascii_upper_def)
  finally have "map ascii_upper label = ''SPEAKER_''" .
  moreover have "map ascii_upper digits = digits"
    using assms(2) by (simp add: upper_digit map_idI)
  ultimately show ?thesis by (simp add: upper_def)
qed

lemma SPEAKER_PREFIX_shape:
  assumes l: "map ascii_lower label = ''speaker_''"
    and "digits \<noteq> []" and "\<forall>c\<in>set digits. re_digit c"
    and "\<forall>c\<in>set ws. isspace c" and "sep = CHR '':'' \<or> sep = CHR ''-''"
  shows "SPEAKER_PREFIX (label @ digits @ ws @ sep # remainder) =
           Some (label @ digits, dropWhile isspace remainder)"
    and "AGENT_PREFIX (label @ digits @ ws @ sep # remainder) = None"
    and "CUSTOMER_PREFIX (label @ digits @ ws @ sep # remainder) = None"
proof -
  have len: "length label = 8" using arg_cong[OF l, of length] by simp
  have lit: "match_literal ''SPEAKER_'' (label @ digits @ ws @ sep # remainder) =
               Some (digits @ ws @ sep # remainder)"
    by (rule match_literal_ci) (simp add: l ascii_lower_pattern)
  show "SPEAKER_PREFIX (label @ digits @ ws @ sep # remainder) =
           Some (label @ digits, dropWhile isspace remainder)"
    unfolding SPEAKER_PREFIX_def lit
    using assms(2) len
    by (simp add: takeWhile_digits[OF assms(3,4,5)] match_separator_shape[OF assms(4,5)])
  show "AGENT_PREFIX (label @ digits @ ws @ sep # remainder) = None"
    unfolding AGENT_PREFIX_def
    by (simp add: match_literal_mismatch1[OF l] match_literal_mismatch2[OF l] ascii_lower_pattern)
  show "CUSTOMER_PREFIX (label @ digits @ ws @ sep # remainder) = None"
    unfolding CUSTOMER_PREFIX_def
    by (simp add: match_literal_mismatch1[OF l] match_literal_mismatch2[OF l] ascii_lower_pattern)
qed

lemma normalize_from_text_at:
  assumes "transcript_lines T = pre @ line # post"
    and "classify (length pre) line = (r, spk, strip rest)"
  shows "normalize_from_text T lang =
     text_loop lang 0 pre [] @
     (if strip rest = [] then []
      else [\<lparr>ConversationTurn.speaker_id = spk, role = r,
              original_text = strip rest, normalized_text_en = strip rest,
              language = lang, emotion = None, start_time = None, end_time = None\<rparr>]) @
     text_loop lang (Suc (length pre)) post []"
  unfolding normalize_from_text_def assms(1) text_loop_at
  by (simp add: text_loop_single assms(2) del: text_loop.simps)

text \<open>
  C4, as amended. Let a line fed to the parser consist of an agent-side alias (Agent,
  Support, CSR, Representative, in any case), white space or none, a colon or a hyphen,
  and a remainder. When the remainder is blank the line gives no turn; otherwise it
  gives exactly one turn, with role agent, speaker identifier "AGENT" and the stripped
  remainder as its text. The same holds for a customer-side alias (Customer, Client,
  User, Caller) with role customer and speaker identifier "CUSTOMER". The turns of the
  lines before and after are not affected, and the position of the line plays no part.
\<close>

theorem explicit_label_turn:
  assumes "transcript_lines T = pre @ line # post"
    and "line = label @ ws @ sep # remainder"
    and "\<forall>c\<in>set ws. isspace c"
    and "sep = CHR '':'' \<or> sep = CHR ''-''"
  shows
   "(map ascii_lower label \<in> set [''agent'', ''support'', ''csr'', ''representative''] \<longrightarrow>
      normalize_from_text T lang =
        text_loop lang 0 pre [] @
        (if strip remainder = [] then []
         else [\<lparr>ConversationTurn.speaker_id = ''AGENT'', role = agent,
                 original_text = strip remainder, normalized_text_en = strip remainder,
                 language = lang, emotion = None, start_time = None, end_time = None\<rparr>]) @
        text_loop lang (Suc (length pre)) post []) \<and>
    (map ascii_lower label \<in> set [''customer'', ''client'', ''user'', ''caller''] \<longrightarrow>
      normalize_from_text T lang =
        text_loop lang 0 pre [] @
        (if strip remainder = [] then []
         else [\<lparr>ConversationTurn.speaker_id = ''CUSTOMER'', role = customer,
                 original_text = strip remainder, normalized_text_en = strip remainder,
                 language = lang, emotion = None, start_time = None, end_time = None\<rparr>]) @
        text_loop lang (Suc (length pre)) post [])"
proof (intro conjI impI)
  assume a: "map ascii_lower label \<in> set [''agent'', ''support'', ''csr'', ''representative'']"
  have "classify (length pre) line = (agent, ''AGENT'', strip remainder)"
    unfolding classify_def assms(2)
    by (simp add: AGENT_PREFIX_shape[OF a assms(3,4)] strip_dropWhile)
  from normalize_from_text_at[OF assms(1) this]
  show "normalize_from_text T lang =
        text_loop lang 0 pre [] @
        (if strip remainder = [] then []
         else [\<lparr>ConversationTurn.speaker_id = ''AGENT'', role = agent,
                 original_text = strip remainder, normalized_text_en = strip remainder,
                 language = lang, emotion = None, start_time = None, end_time = None\<rparr>]) @
        text_loop lang (Suc (length pre)) post []" .
next
  assume a: "map ascii_lower label \<in> set [''customer'', ''client'', ''user'', ''caller'']"
  have "classify (length pre) line = (customer, ''CUSTOMER'', strip remainder)"
    unfolding classify_def assms(2)
    by (simp add: CUSTOMER_PREFIX_shape[OF a assms(3,4)] strip_dropWhile)
  from normalize_from_text_at[OF assms(1) this]
  show "normalize_from_text T lang =
        text_loop lang 0 pre [] @
        (if strip remainder = [] then []
         else [\<lparr>ConversationTurn.speaker_id = ''CUSTOMER'', role = customer,
                 original_text = strip remainder, normalized_text_en = strip remainder,
                 language = lang, emotion = None, start_time = None, end_time = None\<rparr>]) @
        text_loop lang (Suc (length pre)) post []" .
qed

theorem explicit_label_turn_witness:
  "normalize_from_text ''Hello there\<newline>support -  I can help\<newline>Agent:'' ''en'' =
     [\<lparr>ConversationTurn.speaker_id = ''AGENT'', role = agent,
        original_text = ''Hello there'', normalized_text_en = ''Hello there'',
        language = ''en'', emotion = None, start_time = None, end_time = None\<rparr>,
      \<lparr>ConversationTurn.speaker_id = ''AGENT'', role = agent,
        original_text = ''I can help'', normalized_text_en = ''I can help'',
        language = ''en'', emotion = None, start_time = None, end_time = None\<rparr>] \<and>
   normalize_from_text ''CLIENT: thanks'' ''ml'' =
     [\<lparr>ConversationTurn.speaker_id = ''CUSTOMER'', role = customer,
        original_text = ''thanks'', normalized_text_en = ''thanks'',
        language = ''ml'', emotion = None, start_time = None, end_time = None\<rparr>]"
proof -
  have l1: "transcript_lines ''Hello there\<newline>support -  I can help\<newline>Agent:'' =
              [''Hello there''] @ ''support -  I can help'' # [''Agent:'']"
    by code_simp
  have s1: "''support -  I can help'' = ''support'' @ '' '' @ CHR ''-'' # ''  I can help''"
    by simp
  have l2: "transcript_lines ''CLIENT: thanks'' = [] @ ''CLIENT: thanks'' # []"
    by code_simp
  have s2: "''CLIENT: thanks'' = ''CLIENT'' @ [] @ CHR '':'' # '' thanks''"
    by simp
  have w1: "\<forall>c\<in>set '' ''. isspace c" by (simp add: isspace_def)
  have w2: "\<forall>c\<in>set []. isspace c" by simp
  have p1: "CHR ''-'' = CHR '':'' \<or> CHR ''-'' = CHR ''-''" by simp
  have p2: "CHR '':'' = CHR '':'' \<or> CHR '':'' = CHR ''-''" by simp
  have a1: "map ascii_lower ''support'' \<in> set [''agent'', ''support'', ''csr'', ''representative'']"
    by (simp add: ascii_lower_pattern)
  have a2: "map ascii_lower ''CLIENT'' \<in> set [''customer'', ''client'', ''user'', ''caller'']"
    by (simp add: ascii_lower_def)
  have e1: "normalize_from_text ''Hello there\<newline>support -  I can help\<newline>Agent:'' ''en'' =
        text_loop ''en'' 0 [''Hello there''] [] @
        (if strip ''  I can help'' = [] then []
         else [\<lparr>ConversationTurn.speaker_id = ''AGENT'', role = agent,
                 original_text = strip ''  I can help'', normalized_text_en = strip ''  I can help'',
                 language = ''en'', emotion = None, start_time = None, end_time = None\<rparr>]) @
        text_loop ''en'' (Suc (length [''Hello there''])) [''Agent:''] []"
    by (rule explicit_label_turn[OF l1 s1 w1 p1, of "''en''", THEN conjunct1, THEN mp, OF a1])
  have e2: "normalize_from_text ''CLIENT: thanks'' ''ml'' =
        text_loop ''ml'' 0 [] [] @
        (if strip '' thanks'' = [] then []
         else [\<lparr>ConversationTurn.speaker_id = ''CUSTOMER'', role = customer,
                 original_text = strip '' thanks'', normalized_text_en = strip '' thanks'',
                 language = ''ml'', emotion = None, start_time = None, end_time = None\<rparr>]) @
        text_loop ''ml'' (Suc (length ([]::string list))) [] []"
    by (rule explicit_label_turn[OF l2 s2 w2 p2, of "''ml''", THEN conjunct2, THEN mp, OF a2])
  show ?thesis unfolding e1 e2 by code_simp
qed

text \<open>
  C4 as stated fails: a line that is only an alias and a separator emits no turn.
\<close>

theorem explicit_label_counterexample:
  "normalize_from_text ''Agent:\<newline>Customer -'' ''en'' = []"
  by code_simp

text \<open>
  C2, as amended. Let a line fed to the parser consist of the label "SPEAKER_" (in any
  case) with one or more digits, white space or none, a colon or a hyphen, and a
  remainder. When the remainder is blank the line gives no turn; otherwise it gives
  exactly one turn whose speaker identifier is the uppercased label, "SPEAKER_" and the
  digits, and whose role is agent exactly when that identifier is "SPEAKER_00" and
  customer for every other label, whichever labels occur in the transcript.
\<close>

theorem diarized_label_turn:
  assumes "transcript_lines T = pre @ line # post"
    and "line = label @ digits @ ws @ sep # remainder"
    and "map ascii_lower label = ''speaker_''"
    and "digits \<noteq> []" and "\<forall>c\<in>set digits. re_digit c"
    and "\<forall>c\<in>set ws. isspace c"
    and "sep = CHR '':'' \<or> sep = CHR ''-''"
  shows
   "upper (label @ digits) = ''SPEAKER_'' @ digits \<and>
    normalize_from_text T lang =
      text_loop lang 0 pre [] @
      (if strip remainder = [] then []
       else [\<lparr>ConversationTurn.speaker_id = upper (label @ digits),
               role = (if upper (label @ digits) = ''SPEAKER_00'' then agent else customer),
               original_text = strip remainder, normalized_text_en = strip remainder,
               language = lang, emotion = None, start_time = None, end_time = None\<rparr>]) @
      text_loop lang (Suc (length pre)) post []"
proof
  show "upper (label @ digits) = ''SPEAKER_'' @ digits"
    using assms(3,5) by (rule upper_speaker_label)
next
  note s = SPEAKER_PREFIX_shape[OF assms(3,4,5,6,7), of remainder]
  have "classify (length pre) line =
     (if upper (label @ digits) = ''SPEAKER_00'' then agent else customer,
      upper (label @ digits), strip remainder)"
    unfolding classify_def assms(2) by (simp add: s strip_dropWhile)
  from normalize_from_text_at[OF assms(1) this]
  show "normalize_from_text T lang =
      text_loop lang 0 pre [] @
      (if strip remainder = [] then []
       else [\<lparr>ConversationTurn.speaker_id = upper (label @ digits),
               role = (if upper (label @ digits) = ''SPEAKER_00'' then agent else customer),
               original_text = strip remainder, normalized_text_en = strip remainder,
               language = lang, emotion = None, start_time = None, end_time = None\<rparr>]) @
      text_loop lang (Suc (length pre)) post []" .
qed

theorem diarized_label_turn_witness:
  "normalize_from_text ''speaker_00 - Good morning\<newline>SPEAKER_07: hello'' ''en'' =
     [\<lparr>ConversationTurn.speaker_id = ''SPEAKER_00'', role = agent,
        original_text = ''Good morning'', normalized_text_en = ''Good morning'',
        language = ''en'', emotion = None, start_time = None, end_time = None\<rparr>,
      \<lparr>ConversationTurn.speaker_id = ''SPEAKER_07'', role = customer,
        original_text = ''hello'', normalized_text_en = ''hello'',
        language = ''en'', emotion = None, start_time = None, end_time = None\<rparr>]"
proof -
  have l: "transcript_lines ''speaker_00 - Good morning\<newline>SPEAKER_07: hello'' =
             [] @ ''speaker_00 - Good morning'' # [''SPEAKER_07: hello'']"
    by code_simp
  have s: "''speaker_00 - Good morning'' = ''speaker_'' @ ''00'' @ '' '' @ CHR ''-'' # '' Good morning''"
    by simp
  have a: "map ascii_lower ''speaker_'' = ''speaker_''" by (simp add: ascii_lower_def)
  have n: "''00'' \<noteq> []" by simp
  have d: "\<forall>c\<in>set ''00''. re_digit c" by (simp add: re_digit_def)
  have w: "\<forall>c\<in>set '' ''. isspace c" by (simp add: isspace_def)
  have p: "CHR ''-'' = CHR '':'' \<or> CHR ''-'' = CHR ''-''" by simp
  have e: "normalize_from_text ''speaker_00 - Good morning\<newline>SPEAKER_07: hello'' ''en'' =
      text_loop ''en'' 0 [] [] @
      (if strip '' Good morning'' = [] then []
       else [\<lparr>ConversationTurn.speaker_id = upper (''speaker_'' @ ''00''),
               role = (if upper (''speaker_'' @ ''00'') = ''SPEAKER_00'' then agent else customer),
               original_text = strip '' Good morning'', normalized_text_en = strip '' Good morning'',
               language = ''en'', emotion = None, start_time = None, end_time = None\<rparr>]) @
      text_loop ''en'' (Suc (length ([]::string list))) [''SPEAKER_07: hello''] []"
    by (rule diarized_label_turn[OF l s a n d w p, of "''en''", THEN conjunct2])
  show ?thesis unfolding e by code_simp
qed

text \<open>
  C2 as stated fails: in a transcript whose labels are SPEAKER_01 and SPEAKER_02, the
  lexically first label SPEAKER_01 is a customer, and no turn is the agent's.
\<close>

theorem diarized_label_counterexample:
  "map role (normalize_from_text ''SPEAKER_01: hi\<newline>SPEAKER_02: yo'' ''en'') = [customer, customer]"
  by code_simp

section \<open>Round trip through the renderer\<close>

lemma match_literal_take:
  "match_literal a s =
     (if map ascii_lower (take (length a) s) = map ascii_lower a
      then Some (drop (length a) s) else None)"
  by (induction a s rule: match_literal.induct) auto

lemma spec_remainder_after_separator:
  "spec_remainder_after n line = map_option strip (match_separator (drop n line))"
proof (cases "dropWhile isspace (drop n line)")
  case Nil
  show ?thesis unfolding spec_remainder_after_def match_separator_def Nil Let_def
    by simp
next
  case (Cons c r)
  show ?thesis unfolding spec_remainder_after_def match_separator_def Cons Let_def
    by (simp add: strip_dropWhile)
qed

lemma match_alternatives_spec:
  "map_option strip (match_alternatives as s) = spec_labelled_text (map (map ascii_lower) as) s"
proof (induction as)
  case Nil
  then show ?case by simp
next
  case (Cons a as)
  show ?case
  proof (cases "map ascii_lower (take (length a) s) = map ascii_lower a")
    case True
    then have m: "match_literal a s = Some (drop (length a) s)"
      by (simp add: match_literal_take)
    show ?thesis
    proof (cases "match_separator (drop (length a) s)")
      case None
      with m True Cons show ?thesis
        by (simp add: spec_begins_with_def spec_remainder_after_separator)
    next
      case (Some r)
      with m True show ?thesis
        by (simp add: spec_begins_with_def spec_remainder_after_separator)
    qed
  next
    case False
    then have "match_literal a s = None" by (simp add: match_literal_take)
    with False Cons show ?thesis by (simp add: spec_begins_with_def)
  qed
qed

lemma spec_labelled_text_append:
  "spec_labelled_text (xs @ ys) l =
     (case spec_labelled_text xs l of Some t \<Rightarrow> Some t | None \<Rightarrow> spec_labelled_text ys l)"
  by (induction xs) auto

lemma spec_labelled_text_twice:
  "spec_labelled_text (a # a # as) l = spec_labelled_text (a # as) l"
  by (cases "spec_remainder_after (length a) l") auto

lemma AGENT_PREFIX_spec:
  "map_option strip (AGENT_PREFIX l) =
     spec_labelled_text [''agent'', ''support'', ''csr'', ''representative''] l"
proof -
  have "map (map ascii_lower) [''Agent'', ''AGENT'', ''Support'', ''CSR'', ''Representative''] =
        [''agent'', ''agent'', ''support'', ''csr'', ''representative'']"
    by (simp add: ascii_lower_pattern)
  then have "map_option strip (AGENT_PREFIX l) =
        spec_labelled_text [''agent'', ''agent'', ''support'', ''csr'', ''representative''] l"
    unfolding AGENT_PREFIX_def match_alternatives_spec by (simp only:)
  then show ?thesis by (simp only: spec_labelled_text_twice)
qed

lemma CUSTOMER_PREFIX_spec:
  "map_option strip (CUSTOMER_PREFIX l) =
     spec_labelled_text [''customer'', ''client'', ''user'', ''caller''] l"
proof -
  have "map (map ascii_lower) [''Customer'', ''CUSTOMER'', ''Client'', ''User'', ''Caller''] =
        [''customer'', ''customer'', ''client'', ''user'', ''caller'']"
    by (simp add: ascii_lower_pattern)
  then have "map_option strip (CUSTOMER_PREFIX l) =
        spec_labelled_text [''customer'', ''customer'', ''client'', ''user'', ''caller''] l"
    unfolding CUSTOMER_PREFIX_def match_alternatives_spec by (simp only:)
  then show ?thesis by (simp only: spec_labelled_text_twice)
qed

lemma SPEAKER_PREFIX_spec:
  "map_option (\<lambda>(label, rest). strip rest) (SPEAKER_PREFIX l) = spec_diarized_text l"
proof -
  have e1: "map ascii_lower ''SPEAKER_'' = ''speaker_''"
    by (simp add: ascii_lower_pattern)
  have e2: "length ''SPEAKER_'' = length ''speaker_''" by simp
  have lit: "match_literal ''SPEAKER_'' l =
      (if spec_begins_with ''speaker_'' l then Some (drop (length ''speaker_'') l) else None)"
    unfolding match_literal_take[of "''SPEAKER_''" l] spec_begins_with_def e1 e2 ..
  have dr: "dropWhile re_digit (drop n l) =
      drop (n + length (takeWhile re_digit (drop n l))) l" for n
    by (simp add: dropWhile_eq_drop add.commute)
  show ?thesis
  proof (cases "spec_begins_with ''speaker_'' l \<and>
                takeWhile re_digit (drop (length ''speaker_'') l) \<noteq> []")
    case True
    then have "SPEAKER_PREFIX l =
        (case match_separator (dropWhile re_digit (drop (length ''speaker_'') l)) of
           None \<Rightarrow> None
         | Some rest \<Rightarrow>
             Some (take (length ''SPEAKER_'' +
                         length (takeWhile re_digit (drop (length ''speaker_'') l))) l, rest))"
      unfolding SPEAKER_PREFIX_def lit Let_def by (simp only: if_True option.case if_False)
    moreover have "spec_diarized_text l =
        map_option strip
          (match_separator (dropWhile re_digit (drop (length ''speaker_'') l)))"
      using True unfolding spec_diarized_text_def Let_def spec_remainder_after_separator
        dr[of "length ''speaker_''"]
      by (simp only: simp_thms if_True)
    ultimately show ?thesis
      by (cases "match_separator (dropWhile re_digit (drop (length ''speaker_'') l))") simp_all
  next
    case False
    then have "SPEAKER_PREFIX l = None"
      unfolding SPEAKER_PREFIX_def lit Let_def by (auto split: option.splits)
    moreover have "spec_diarized_text l = None"
      using False unfolding spec_diarized_text_def Let_def by (simp only: if_False)
    ultimately show ?thesis by simp
  qed
qed

lemma classify_text_spec: "snd (snd (classify i l)) = spec_text_after_prefix l"
proof -
  have two: "spec_labelled_text
             [''agent'', ''support'', ''csr'', ''representative'',
              ''customer'', ''client'', ''user'', ''caller''] l =
        (case spec_labelled_text [''agent'', ''support'', ''csr'', ''representative''] l of
           Some t \<Rightarrow> Some t
         | None \<Rightarrow> spec_labelled_text [''customer'', ''client'', ''user'', ''caller''] l)"
    using spec_labelled_text_append[of "[''agent'', ''support'', ''csr'', ''representative'']"
        "[''customer'', ''client'', ''user'', ''caller'']" l]
    by (simp only: append.simps)
  have s: "spec_text_after_prefix l =
     (case map_option strip (AGENT_PREFIX l) of
        Some t \<Rightarrow> t
      | None \<Rightarrow>
     (case map_option strip (CUSTOMER_PREFIX l) of
        Some t \<Rightarrow> t
      | None \<Rightarrow>
     (case map_option (\<lambda>(label, rest). strip rest) (SPEAKER_PREFIX l) of
        Some t \<Rightarrow> t
      | None \<Rightarrow> l)))"
    unfolding spec_text_after_prefix_def two AGENT_PREFIX_spec CUSTOMER_PREFIX_spec
      SPEAKER_PREFIX_spec
    by (cases "spec_labelled_text [''agent'', ''support'', ''csr'', ''representative''] l")
      (simp_all only: option.case)
  show ?thesis unfolding s classify_def
    by (simp split: option.splits prod.splits)
qed

lemma filter_enumerate_length:
  "length (filter (\<lambda>(i, l). P l) (enumerate n xs)) = length (filter P xs)"
  by (induction xs arbitrary: n) auto

text \<open>
  C8. Rendering the turns of a transcript and splitting the result into lines gives
  back the rendered lines, one for each turn; their number is the number of non-blank
  lines of the transcript whose text, in the spec's words, is non-empty after the
  prefix is removed.
\<close>

theorem dialogue_round_trip_line_count:
  "splitlines (turns_to_dialogue_string (normalize_from_text T lang)) =
     map dialogue_line (normalize_from_text T lang) \<and>
   length (splitlines (turns_to_dialogue_string (normalize_from_text T lang))) =
     length (filter (\<lambda>l. spec_text_after_prefix l \<noteq> []) (nonblank_lines T))"
proof -
  have "\<forall>l\<in>set (map dialogue_line (normalize_from_text T lang)).
          l \<noteq> [] \<and> (\<forall>c\<in>set l. \<not> is_linebreak c)"
    using text_turn_line by auto
  then have s: "splitlines (turns_to_dialogue_string (normalize_from_text T lang)) =
     map dialogue_line (normalize_from_text T lang)"
    unfolding turns_to_dialogue_string_join by (rule splitlines_join)
  have "length (normalize_from_text T lang) =
     length (filter (\<lambda>(i, l). snd (snd (classify i l)) \<noteq> []) (enumerate 0 (nonblank_lines T)))"
    unfolding normalize_from_text_def transcript_lines_nonblank[symmetric]
    by (rule text_loop_length)
  also have "\<dots> = length (filter (\<lambda>l. spec_text_after_prefix l \<noteq> []) (nonblank_lines T))"
    unfolding classify_text_spec by (rule filter_enumerate_length)
  finally show ?thesis using s by simp
qed

theorem dialogue_round_trip_line_count_witness:
  "nonblank_lines ''Agent: hi\<newline>\<newline>  Customer: yo\<newline>Agent:\<newline>SPEAKER_01 - ok\<newline>thanks'' =
     [''Agent: hi'', ''Customer: yo'', ''Agent:'', ''SPEAKER_01 - ok'', ''thanks''] \<and>
   map spec_text_after_prefix
     [''Agent: hi'', ''Customer: yo'', ''Agent:'', ''SPEAKER_01 - ok'', ''thanks''] =
     [''hi'', ''yo'', [], ''ok'', ''thanks''] \<and>
   length (splitlines (turns_to_dialogue_string (normalize_from_text
     ''Agent: hi\<newline>\<newline>  Customer: yo\<newline>Agent:\<newline>SPEAKER_01 - ok\<newline>thanks'' ''en''))) = 4 \<and>
   splitlines (turns_to_dialogue_string (normalize_from_text
     ''Agent: hi\<newline>\<newline>  Customer: yo\<newline>Agent:\<newline>SPEAKER_01 - ok\<newline>thanks'' ''en'')) =
     [''Agent: hi'', ''Customer: yo'', ''Customer: ok'', ''Agent: thanks'']"
proof -
  let ?T = "''Agent: hi\<newline>\<newline>  Customer: yo\<newline>Agent:\<newline>SPEAKER_01 - ok\<newline>thanks''"
  have n: "nonblank_lines ?T =
     [''Agent: hi'', ''Customer: yo'', ''Agent:'', ''SPEAKER_01 - ok'', ''thanks'']"
    by code_simp
  have m: "map spec_text_after_prefix
     [''Agent: hi'', ''Customer: yo'', ''Agent:'', ''SPEAKER_01 - ok'', ''thanks''] =
     [''hi'', ''yo'', [], ''ok'', ''thanks'']"
    by code_simp
  have c: "length (filter (\<lambda>l. spec_text_after_prefix l \<noteq> []) (nonblank_lines ?T)) = 4"
    unfolding n using m by simp
  have d: "map dialogue_line (normalize_from_text ?T ''en'') =
     [''Agent: hi'', ''Customer: yo'', ''Customer: ok'', ''Agent: thanks'']"
    by code_simp
  from dialogue_round_trip_line_count[of ?T "''en''"] c d n m show ?thesis by simp
qed

end
